theory Spec2Isabelle
  imports Main "HOL-Library.Word"
begin

section \<open>The A* path finder of src/Mobs/Path.cpp\<close>

text \<open>
  A shallow embedding of \<^verbatim>\<open>cPath\<close>: the cell cache \<^verbatim>\<open>m_Map\<close>, the walkability
  test \<^verbatim>\<open>IsSolid\<close> with its fence and water side effects, the open list, the
  expansion step \<^verbatim>\<open>StepOnce\<close>, the budgeted loop \<^verbatim>\<open>Step\<close> and the constructor.

  Conventions of the model.
  \<^item> A \<^verbatim>\<open>Vector3i\<close> is a triple of integers. Coordinates and accumulated costs
    are mathematical integers: the model describes runs in which no coordinate and no
    accumulated cost leaves the range of a C++ \<^verbatim>\<open>int\<close>. Two computations are checked
    against that range, because inputs within it drive them out of it: the squares in
    the heuristic (two endpoints far apart) and the loop counter of \<^verbatim>\<open>Step\<close> (a
    budget of zero). Signed overflow is undefined behaviour.
  \<^item> A \<^verbatim>\<open>cPathCell *\<close> is represented by the location of the cell it points to:
    \<^verbatim>\<open>GetCell\<close> is the only allocator, it allocates for a location only when the map
    has no entry for it, and no cell is freed before the whole map is. The store
    \<^verbatim>\<open>m_Map\<close> therefore serves as the heap of cells; every write through a pointer
    is an update of the entry at that location, visible to all holders of the pointer.
  \<^item> A result \<open>None\<close> stands for a run that does not return normally: the mutual
    recursion of \<^verbatim>\<open>GetCell\<close> and \<^verbatim>\<open>IsSolid\<close> going deeper than the recursion budget
    \<open>d\<close>, a dereference of a pointer with no cell behind it (which includes the null
    caller in the third case of \<^verbatim>\<open>ProcessCell\<close>), or signed overflow in the
    heuristic or of the loop counter of \<^verbatim>\<open>Step\<close>.
  \<^item> C++ does not fix which of several queued cells of equal least \<^verbatim>\<open>m_F\<close> a
    \<^verbatim>\<open>std::priority_queue\<close> gives first. The model takes that decision from a
    parameter, \<open>TieBreak\<close>, so what is proved holds whatever the library does.
  \<^item> Two fields of the state are instrumentation and are never read by the modelled
    code: \<open>OracleCalls\<close> lists the locations \<^verbatim>\<open>IsSolid\<close> was called with,
    and \<open>StepOnceCalls\<close> counts the calls of \<^verbatim>\<open>StepOnce\<close>.
\<close>

subsection \<open>Vectors and blocks\<close>

type_synonym Vector3i = "int \<times> int \<times> int"

fun vadd :: "Vector3i \<Rightarrow> Vector3i \<Rightarrow> Vector3i" where
  "vadd (x1, y1, z1) (x2, y2, z2) = (x1 + x2, y1 + y2, z1 + z2)"

fun vsub :: "Vector3i \<Rightarrow> Vector3i \<Rightarrow> Vector3i" where
  "vsub (x1, y1, z1) (x2, y2, z2) = (x1 - x2, y1 - y2, z1 - z2)"

text \<open>
  The integer square root, by halving: for \<open>0 \<le> n\<close>, \<open>isqrt n\<close> is the largest
  \<open>r\<close> with \<open>r * r \<le> n\<close> (lemma \<open>isqrt_correct\<close>).
\<close>

function isqrt :: "int \<Rightarrow> int" where
  "isqrt n =
     (if n < 4 then (if n \<le> 0 then 0 else 1)
      else (let r = 2 * isqrt (n div 4)
            in if (r + 1) * (r + 1) \<le> n then r + 1 else r))"
  by pat_completeness auto
termination
  by (relation "measure nat") auto

declare isqrt.simps [simp del]

definition INT_MAX :: int where
  "INT_MAX = 2147483647"

definition INT_MIN :: int where
  "INT_MIN = - 2147483648"

text \<open>
  \<^verbatim>\<open>static_cast<int>(v.Length() * 10)\<close>, where \<^verbatim>\<open>Vector3i::Length\<close> (Vector3.h, not
  under src) is the square root, as a double, of \<^verbatim>\<open>x * x + y * y + z * z\<close> computed
  in \<^verbatim>\<open>int\<close>. The squares are not negative, so the sum overflows exactly when its
  mathematical value exceeds \<^verbatim>\<open>INT_MAX\<close>; that run is \<open>None\<close>. Otherwise the cast
  truncates, and \<open>10 * sqrt n\<close> is \<open>sqrt (100 * n)\<close>, so the value is the integer
  square root of \<open>100 * n\<close> (for \<open>n\<close> up to \<^verbatim>\<open>INT_MAX\<close> the rounding of the double
  arithmetic is far smaller than the distance of \<open>sqrt (100 * n)\<close> from the next
  integer). The argument is a difference of two locations; a difference that does not fit
  an \<^verbatim>\<open>int\<close> has a square above \<^verbatim>\<open>INT_MAX\<close>, so the same check covers the overflow
  of the subtraction.
\<close>

fun Length10 :: "Vector3i \<Rightarrow> int option" where
  "Length10 (x, y, z) =
     (if x * x + y * y + z * z \<le> INT_MAX
      then Some (isqrt (100 * (x * x + y * y + z * z)))
      else None)"

type_synonym BLOCKTYPE = "8 word"

definition E_BLOCK_STATIONARY_WATER :: BLOCKTYPE where
  "E_BLOCK_STATIONARY_WATER = 9"

definition E_BLOCK_FENCE :: BLOCKTYPE where
  "E_BLOCK_FENCE = 85"

definition E_BLOCK_FENCE_GATE :: BLOCKTYPE where
  "E_BLOCK_FENCE_GATE = 107"

subsection \<open>Cells and the search state\<close>

datatype eCellStatus = OPENLIST | CLOSEDLIST | NOLIST

datatype ePathFinderStatus = CALCULATING | PATH_FOUND | PATH_NOT_FOUND

record cPathCell =
  m_Location :: Vector3i
  m_F :: int
  m_G :: int
  m_H :: int
  m_Status :: eCellStatus
  m_Parent :: "Vector3i option"
  m_IsSolid :: bool

text \<open>
  \<^verbatim>\<open>new cPathCell()\<close> value-initialises: all fields zero, so the status is the
  first enumerator and the parent is null.
\<close>

definition new_cPathCell :: cPathCell where
  "new_cPathCell =
     \<lparr>m_Location = (0, 0, 0), m_F = 0, m_G = 0, m_H = 0, m_Status = OPENLIST,
      m_Parent = None, m_IsSolid = False\<rparr>"

text \<open>
  The fields of \<^verbatim>\<open>cPath\<close> the search uses. \<open>m_PathStatus\<close> is \<^verbatim>\<open>cPath::m_Status\<close>
  (renamed: the cell has a field of that name). \<open>m_OpenList\<close> holds the queued cell
  pointers in the order they were pushed.
\<close>

record cPath =
  m_Map :: "Vector3i \<Rightarrow> cPathCell option"
  m_OpenList :: "Vector3i list"
  m_PathStatus :: ePathFinderStatus
  m_StepsLeft :: int
  m_Destination :: Vector3i
  m_Source :: Vector3i
  m_PathPoints :: "Vector3i list"
  OracleCalls :: "Vector3i list"
  StepOnceCalls :: nat

definition CALCULATIONS_PER_STEP :: int where
  "CALCULATIONS_PER_STEP = 5"

text \<open>A write through a cell pointer: \<^verbatim>\<open>p->field = v\<close>.\<close>

definition CellWrite :: "Vector3i \<Rightarrow> (cPathCell \<Rightarrow> cPathCell) \<Rightarrow> cPath \<Rightarrow> cPath option" where
  "CellWrite p f s =
     (case m_Map s p of
        None \<Rightarrow> None
      | Some c \<Rightarrow> Some (s\<lparr>m_Map := (m_Map s)(p \<mapsto> f c)\<rparr>))"

subsection \<open>The environment\<close>

text \<open>
  The world as \<^verbatim>\<open>cPath::IsSolid\<close> sees it. The chunk functions it calls
  (\<^verbatim>\<open>GetNeighborChunk\<close>, \<^verbatim>\<open>IsValid\<close>, \<^verbatim>\<open>GetBlockTypeMeta\<close>) and the table
  \<^verbatim>\<open>cBlockInfo::IsSolid\<close> are not under src, so they are parameters:
  \<open>GetBlock w l\<close> is \<open>None\<close> when the chunk holding \<open>l\<close> is missing or invalid and
  the block type at \<open>l\<close> otherwise, and \<open>BlockIsSolid w\<close> is the table. The lookup is
  a function of the location alone: the chunk pointer \<^verbatim>\<open>m_Chunk\<close>, which the source
  moves along as a shortcut for the next lookup, is left out.

  The third parameter belongs to the C++ library: \<open>TieBreak w s cands\<close> is the cell
  that \<^verbatim>\<open>m_OpenList.top()\<close> gives in the state \<open>s\<close> when the cells \<open>cands\<close>, two or
  more, all have the least \<^verbatim>\<open>m_F\<close> in the queue. It may depend on the whole state, so
  it covers any heap, whatever its layout depends on.
\<close>

record World =
  GetBlock :: "Vector3i \<Rightarrow> BLOCKTYPE option"
  BlockIsSolid :: "BLOCKTYPE \<Rightarrow> bool"
  TieBreak :: "cPath \<Rightarrow> Vector3i list \<Rightarrow> Vector3i"

subsection \<open>The cell cache and the walkability test\<close>

text \<open>
  \<^verbatim>\<open>GetCell\<close> (lines 394-416) and \<^verbatim>\<open>IsSolid\<close> (lines 166-193) call each other. The
  first argument bounds the depth of that recursion. \<^verbatim>\<open>GetCell\<close> returns the pointer
  to the cell of \<open>a_Location\<close>, which in the model is \<open>a_Location\<close> itself, so only
  the state is returned.
\<close>

fun GetCell :: "nat \<Rightarrow> World \<Rightarrow> Vector3i \<Rightarrow> cPath \<Rightarrow> cPath option"
  and IsSolid :: "nat \<Rightarrow> World \<Rightarrow> Vector3i \<Rightarrow> cPath \<Rightarrow> (bool \<times> cPath) option"
where
  "GetCell 0 w a_Location s = None"
| "GetCell (Suc d) w a_Location s =
     (if m_Map s a_Location = None then
        (case IsSolid d w a_Location
                (s\<lparr>m_Map := (m_Map s)(a_Location \<mapsto> new_cPathCell\<lparr>m_Location := a_Location\<rparr>)\<rparr>) of
           None \<Rightarrow> None
         | Some (b, s1) \<Rightarrow>
             CellWrite a_Location (\<lambda>c. c\<lparr>m_IsSolid := b, m_Status := NOLIST\<rparr>) s1)
      else Some s)"
| "IsSolid d w a_Location s0 =
     (let s = s0\<lparr>OracleCalls := OracleCalls s0 @ [a_Location]\<rparr> in
      case GetBlock w a_Location of
        None \<Rightarrow> Some (True, s)
      | Some BlockType \<Rightarrow>
          (case (if BlockType = E_BLOCK_FENCE \<or> BlockType = E_BLOCK_FENCE_GATE
                 then (case GetCell d w (vadd a_Location (0, 1, 0)) s of
                         None \<Rightarrow> None
                       | Some s' \<Rightarrow>
                           CellWrite (vadd a_Location (0, 1, 0)) (\<lambda>c. c\<lparr>m_IsSolid := True\<rparr>) s')
                 else Some s) of
             None \<Rightarrow> None
           | Some s1 \<Rightarrow>
               (case (if BlockType = E_BLOCK_STATIONARY_WATER
                      then (case GetCell d w (vadd a_Location (0, - 1, 0)) s1 of
                              None \<Rightarrow> None
                            | Some s' \<Rightarrow>
                                CellWrite (vadd a_Location (0, - 1, 0)) (\<lambda>c. c\<lparr>m_IsSolid := True\<rparr>) s')
                      else Some s1) of
                  None \<Rightarrow> None
                | Some s2 \<Rightarrow> Some (BlockIsSolid w BlockType, s2))))"

text \<open>The expression \<^verbatim>\<open>GetCell(a_Location)->m_IsSolid\<close>.\<close>

definition GetCellIsSolid :: "nat \<Rightarrow> World \<Rightarrow> Vector3i \<Rightarrow> cPath \<Rightarrow> (bool \<times> cPath) option" where
  "GetCellIsSolid d w a_Location s =
     (case GetCell d w a_Location s of
        None \<Rightarrow> None
      | Some s1 \<Rightarrow>
          (case m_Map s1 a_Location of
             None \<Rightarrow> None
           | Some c \<Rightarrow> Some (m_IsSolid c, s1)))"

subsection \<open>The open list\<close>

text \<open>
  \<^verbatim>\<open>m_OpenList\<close> is a \<^verbatim>\<open>std::priority_queue\<close> of cell pointers under
  \<^verbatim>\<open>compareHeuristics\<close> (lines 70-73), which ranks a cell with a smaller \<^verbatim>\<open>m_F\<close>
  higher; the comparison reads \<^verbatim>\<open>m_F\<close> through the pointers. No code changes the
  \<^verbatim>\<open>m_F\<close> of a queued cell, so the heap stays ordered and \<^verbatim>\<open>top()\<close> is a cell of
  least \<^verbatim>\<open>m_F\<close>. \<open>LeastF s qs\<close> lists the cells of \<open>qs\<close> with the least \<^verbatim>\<open>m_F\<close>.
  When there is one, \<open>pq_top\<close> is that cell; when there are several, it is the one
  \<open>TieBreak\<close> names (the first of them, should \<open>TieBreak\<close> name none of them).
\<close>

definition CellF :: "cPath \<Rightarrow> Vector3i \<Rightarrow> int" where
  "CellF s p = (case m_Map s p of None \<Rightarrow> 0 | Some c \<Rightarrow> m_F c)"

definition LeastF :: "cPath \<Rightarrow> Vector3i list \<Rightarrow> Vector3i list" where
  "LeastF s qs = filter (\<lambda>q. list_all (\<lambda>r. CellF s q \<le> CellF s r) qs) qs"

definition pq_top :: "World \<Rightarrow> cPath \<Rightarrow> Vector3i \<Rightarrow> Vector3i list \<Rightarrow> Vector3i" where
  "pq_top w s p ps =
     (case LeastF s (p # ps) of
        [] \<Rightarrow> p
      | [x] \<Rightarrow> x
      | x # y # r \<Rightarrow>
          if TieBreak w s (x # y # r) \<in> set (x # y # r) then TieBreak w s (x # y # r) else x)"

text \<open>\<^verbatim>\<open>OpenListAdd\<close> (lines 292-299).\<close>

definition OpenListAdd :: "Vector3i \<Rightarrow> cPath \<Rightarrow> cPath option" where
  "OpenListAdd a_Cell s =
     (case CellWrite a_Cell (\<lambda>c. c\<lparr>m_Status := OPENLIST\<rparr>) s of
        None \<Rightarrow> None
      | Some s1 \<Rightarrow> Some (s1\<lparr>m_OpenList := m_OpenList s1 @ [a_Cell]\<rparr>))"

text \<open>
  \<^verbatim>\<open>OpenListPop\<close> (lines 305-319): the null pointer is \<open>None\<close> in the first
  component. The queue compares cells through their pointers, so every queued pointer
  must have a cell behind it.
\<close>

definition OpenListPop :: "World \<Rightarrow> cPath \<Rightarrow> (Vector3i option \<times> cPath) option" where
  "OpenListPop w s =
     (case m_OpenList s of
        [] \<Rightarrow> Some (None, s)
      | p # ps \<Rightarrow>
          if list_all (\<lambda>q. m_Map s q \<noteq> None) (p # ps)
          then (let Ret = pq_top w s p ps in
                case CellWrite Ret (\<lambda>c. c\<lparr>m_Status := CLOSEDLIST\<rparr>)
                       (s\<lparr>m_OpenList := remove1 Ret (p # ps)\<rparr>) of
                  None \<Rightarrow> None
                | Some s1 \<Rightarrow> Some (Some Ret, s1))
          else None)"

subsection \<open>Relaxation\<close>

text \<open>
  \<^verbatim>\<open>ProcessCell\<close> (lines 338-388), compiled with \<^verbatim>\<open>DISTANCE_MANHATTAN\<close> and
  \<^verbatim>\<open>HEURISTICS_ONLY\<close> both 0 as the file defines them. \<open>a_Caller\<close> is \<open>None\<close> for
  the null pointer.
\<close>

definition ProcessCell :: "Vector3i \<Rightarrow> Vector3i option \<Rightarrow> int \<Rightarrow> cPath \<Rightarrow> cPath option" where
  "ProcessCell a_Cell a_Caller a_GDelta s =
     (case m_Map s a_Cell of
        None \<Rightarrow> None
      | Some c \<Rightarrow>
          if m_Status c = CLOSEDLIST then Some s
          else if m_Status c = NOLIST then
            (case (case a_Caller of
                     None \<Rightarrow> Some 0
                   | Some p \<Rightarrow> (case m_Map s p of
                                 None \<Rightarrow> None
                               | Some pc \<Rightarrow> Some (m_G pc + a_GDelta))) of
               None \<Rightarrow> None
             | Some g \<Rightarrow>
                 (case Length10 (vsub (m_Location c) (m_Destination s)) of
                    None \<Rightarrow> None
                  | Some h \<Rightarrow>
                      OpenListAdd a_Cell
                        (s\<lparr>m_Map := (m_Map s)(a_Cell \<mapsto>
                             c\<lparr>m_Parent := a_Caller, m_G := g, m_H := h, m_F := h + g\<rparr>)\<rparr>)))
          else
            (case a_Caller of
               None \<Rightarrow> None
             | Some p \<Rightarrow>
                 (case m_Map s p of
                    None \<Rightarrow> None
                  | Some pc \<Rightarrow>
                      (let NewG = m_G pc + a_GDelta in
                       if NewG < m_G c
                       then Some (s\<lparr>m_Map := (m_Map s)(a_Cell \<mapsto>
                              c\<lparr>m_G := NewG, m_H := m_F c + NewG, m_Parent := a_Caller\<rparr>)\<rparr>)
                       else Some s))))"

text \<open>
  \<^verbatim>\<open>ProcessIfWalkable\<close> (lines 325-332). The three operands of \<^verbatim>\<open>&&\<close> are
  evaluated left to right and only as far as needed, each reading the cache as it is
  at that moment.
\<close>

definition ProcessIfWalkable ::
  "nat \<Rightarrow> World \<Rightarrow> Vector3i \<Rightarrow> Vector3i \<Rightarrow> int \<Rightarrow> cPath \<Rightarrow> cPath option" where
  "ProcessIfWalkable d w a_Location a_Parent a_Cost s =
     (case GetCellIsSolid d w a_Location s of
        None \<Rightarrow> None
      | Some (b1, s1) \<Rightarrow>
          if b1 then Some s1
          else (case GetCellIsSolid d w (vadd a_Location (0, - 1, 0)) s1 of
                  None \<Rightarrow> None
                | Some (b2, s2) \<Rightarrow>
                    if \<not> b2 then Some s2
                    else (case GetCellIsSolid d w (vadd a_Location (0, 1, 0)) s2 of
                            None \<Rightarrow> None
                          | Some (b3, s3) \<Rightarrow>
                              if b3 then Some s3
                              else ProcessCell a_Location (Some a_Parent) a_Cost s3)))"

subsection \<open>One step of the search\<close>

text \<open>The two overloads of \<^verbatim>\<open>FinishCalculation\<close> (lines 267-286).\<close>

definition FinishCalculation :: "cPath \<Rightarrow> cPath" where
  "FinishCalculation s = s\<lparr>m_Map := Map.empty, m_OpenList := []\<rparr>"

definition FinishCalculationAs :: "ePathFinderStatus \<Rightarrow> cPath \<Rightarrow> cPath" where
  "FinishCalculationAs a_NewStatus s = FinishCalculation (s\<lparr>m_PathStatus := a_NewStatus\<rparr>)"

text \<open>
  The do-while loop of lines 220-224, which follows the parent pointers from the
  popped cell. A chain of parents that runs into a cycle never leaves the loop; that
  run is \<open>None\<close>.
\<close>

partial_function (option) PopulatePath :: "Vector3i \<Rightarrow> cPath \<Rightarrow> cPath option" where
  "PopulatePath CurrentCell s =
     (case m_Map s CurrentCell of
        None \<Rightarrow> None
      | Some c \<Rightarrow>
          (case m_Parent c of
             None \<Rightarrow> Some (s\<lparr>m_PathPoints := m_PathPoints s @ [m_Location c]\<rparr>)
           | Some p \<Rightarrow> PopulatePath p (s\<lparr>m_PathPoints := m_PathPoints s @ [m_Location c]\<rparr>)))"

declare PopulatePath.simps [code]

text \<open>A sequence of calls, each on the state the one before left.\<close>

fun ForEach :: "'a list \<Rightarrow> ('a \<Rightarrow> cPath \<Rightarrow> cPath option) \<Rightarrow> cPath \<Rightarrow> cPath option" where
  "ForEach [] f s = Some s"
| "ForEach (x # xs) f s = (case f x s of None \<Rightarrow> None | Some s1 \<Rightarrow> ForEach xs f s1)"

text \<open>
  The offsets of the first loop of \<^verbatim>\<open>StepOnce\<close> (lines 234-240), in the order the
  loop visits them, and the \<^verbatim>\<open>(x, z)\<close> pairs of the second (lines 244-258).
\<close>

definition OrthogonalOffsets :: "Vector3i list" where
  "OrthogonalOffsets =
     concat (map (\<lambda>i. [(1, i, 0), (- 1, i, 0), (0, i, 1), (0, i, - 1)]) [- 1, 0, 1])"

definition DiagonalOffsets :: "(int \<times> int) list" where
  "DiagonalOffsets = [(- 1, - 1), (- 1, 1), (1, - 1), (1, 1)]"

text \<open>The body of the inner loop over \<^verbatim>\<open>z\<close> (lines 248-256) for one pair.\<close>

definition ProcessDiagonal ::
  "nat \<Rightarrow> World \<Rightarrow> Vector3i \<Rightarrow> Vector3i \<Rightarrow> int \<times> int \<Rightarrow> cPath \<Rightarrow> cPath option" where
  "ProcessDiagonal d w CurrentCell loc xz s =
     (case GetCellIsSolid d w (vadd loc (fst xz, 0, 0)) s of
        None \<Rightarrow> None
      | Some (b1, s1) \<Rightarrow>
          if b1 then Some s1
          else (case GetCellIsSolid d w (vadd loc (0, 0, snd xz)) s1 of
                  None \<Rightarrow> None
                | Some (b2, s2) \<Rightarrow>
                    if b2 then Some s2
                    else (case GetCellIsSolid d w (vadd loc (fst xz, - 1, 0)) s2 of
                            None \<Rightarrow> None
                          | Some (b3, s3) \<Rightarrow>
                              if \<not> b3 then Some s3
                              else (case GetCellIsSolid d w (vadd loc (0, - 1, snd xz)) s3 of
                                      None \<Rightarrow> None
                                    | Some (b4, s4) \<Rightarrow>
                                        if \<not> b4 then Some s4
                                        else ProcessIfWalkable d w
                                               (vadd loc (fst xz, 0, snd xz)) CurrentCell 14 s4))))"

definition IsNextToDestination :: "Vector3i \<Rightarrow> Vector3i \<Rightarrow> bool" where
  "IsNextToDestination loc dest \<longleftrightarrow>
     loc = vadd dest (0, 0, 1) \<or> loc = vadd dest (1, 0, 0) \<or> loc = vadd dest (- 1, 0, 0) \<or>
     loc = vadd dest (0, 0, - 1) \<or> loc = vadd dest (0, - 1, 0)"

text \<open>
  \<^verbatim>\<open>StepOnce\<close> (lines 199-261): the result pairs the returned flag with the state.
\<close>

definition StepOnce :: "nat \<Rightarrow> World \<Rightarrow> cPath \<Rightarrow> (bool \<times> cPath) option" where
  "StepOnce d w s0 =
     (case OpenListPop w (s0\<lparr>StepOnceCalls := Suc (StepOnceCalls s0)\<rparr>) of
        None \<Rightarrow> None
      | Some (None, s) \<Rightarrow> Some (True, FinishCalculationAs PATH_NOT_FOUND s)
      | Some (Some CurrentCell, s) \<Rightarrow>
          (case m_Map s CurrentCell of
             None \<Rightarrow> None
           | Some c \<Rightarrow>
               if IsNextToDestination (m_Location c) (m_Destination s)
               then (case PopulatePath CurrentCell s of
                       None \<Rightarrow> None
                     | Some s1 \<Rightarrow> Some (True, FinishCalculationAs PATH_FOUND s1))
               else (case ForEach OrthogonalOffsets
                            (\<lambda>off. ProcessIfWalkable d w (vadd (m_Location c) off) CurrentCell 10) s of
                       None \<Rightarrow> None
                     | Some s1 \<Rightarrow>
                         (case ForEach DiagonalOffsets
                                 (ProcessDiagonal d w CurrentCell (m_Location c)) s1 of
                            None \<Rightarrow> None
                          | Some s2 \<Rightarrow> Some (False, s2)))))"

subsection \<open>The budgeted loop and the constructor\<close>

text \<open>
  The loop of \<^verbatim>\<open>cPath::Step\<close> (lines 150-156) at counter value \<open>Step\<close>. Its bound
  \<^verbatim>\<open>CALCULATIONS_PER_STEP * m_StepsLeft\<close> is an \<^verbatim>\<open>int\<close> product, and \<^verbatim>\<open>++Step\<close> at
  \<^verbatim>\<open>INT_MAX\<close> overflows; both are undefined behaviour and end the run with \<open>None\<close>.
  The function returns the state; the status \<^verbatim>\<open>Step\<close> returns is its \<open>m_PathStatus\<close>.
\<close>

function StepLoop :: "nat \<Rightarrow> World \<Rightarrow> int \<Rightarrow> cPath \<Rightarrow> cPath option" where
  "StepLoop d w Step s =
     (if CALCULATIONS_PER_STEP * m_StepsLeft s < INT_MIN \<or>
         INT_MAX < CALCULATIONS_PER_STEP * m_StepsLeft s then None
      else if Step = CALCULATIONS_PER_STEP * m_StepsLeft s
      then Some (FinishCalculationAs PATH_NOT_FOUND s)
      else (case StepOnce d w s of
              None \<Rightarrow> None
            | Some (True, s1) \<Rightarrow> Some s1
            | Some (False, s1) \<Rightarrow>
                if INT_MAX \<le> Step then None else StepLoop d w (Step + 1) s1))"
  by pat_completeness auto
termination
  by (relation "measure (\<lambda>(d, w, Step, s). nat (INT_MAX - Step))") auto

declare StepLoop.simps [simp del]

definition Step :: "nat \<Rightarrow> World \<Rightarrow> cPath \<Rightarrow> cPath option" where
  "Step d w s = StepLoop d w 1 s"

text \<open>
  The state in which the body of the constructor starts: the members set by the
  initialiser list (\<^verbatim>\<open>Floor\<close> of an integer vector is the vector), empty containers.
  \<^verbatim>\<open>m_Status\<close> and \<^verbatim>\<open>m_StepsLeft\<close> are uninitialised there; the model gives them
  \<open>CALCULATING\<close> and 0, and no code reads them before they are assigned.
\<close>

definition InitialPath :: "Vector3i \<Rightarrow> Vector3i \<Rightarrow> cPath" where
  "InitialPath a_StartingPoint a_EndingPoint =
     \<lparr>m_Map = Map.empty, m_OpenList = [], m_PathStatus = CALCULATING, m_StepsLeft = 0,
      m_Destination = a_EndingPoint, m_Source = a_StartingPoint, m_PathPoints = [],
      OracleCalls = [], StepOnceCalls = 0\<rparr>"

text \<open>
  The constructor (lines 80-114) up to the point where it hands \<^verbatim>\<open>Step\<close> to
  \<^verbatim>\<open>std::async\<close>. The flag of the result tells whether that point was reached.
\<close>

definition Construct ::
  "nat \<Rightarrow> World \<Rightarrow> Vector3i \<Rightarrow> Vector3i \<Rightarrow> int \<Rightarrow> (bool \<times> cPath) option" where
  "Construct d w a_StartingPoint a_EndingPoint a_MaxSteps =
     (case GetCellIsSolid d w a_StartingPoint (InitialPath a_StartingPoint a_EndingPoint) of
        None \<Rightarrow> None
      | Some (b1, s1) \<Rightarrow>
          (case (if b1 then Some (True, s1) else GetCellIsSolid d w (m_Destination s1) s1) of
             None \<Rightarrow> None
           | Some (b, s2) \<Rightarrow>
               if b then Some (False, s2\<lparr>m_PathStatus := PATH_NOT_FOUND\<rparr>)
               else (case GetCell d w a_StartingPoint
                            (s2\<lparr>m_PathStatus := CALCULATING, m_StepsLeft := a_MaxSteps\<rparr>) of
                       None \<Rightarrow> None
                     | Some s3 \<Rightarrow>
                         (case ProcessCell a_StartingPoint None 0 s3 of
                            None \<Rightarrow> None
                          | Some s4 \<Rightarrow> Some (True, s4)))))"

text \<open>
  A whole search: the constructor, then the one call of \<^verbatim>\<open>Step\<close> that
  \<^verbatim>\<open>std::async\<close> runs (the model takes the launch to succeed). No other code touches
  the state while \<^verbatim>\<open>Step\<close> runs.
\<close>

definition Search :: "nat \<Rightarrow> World \<Rightarrow> Vector3i \<Rightarrow> Vector3i \<Rightarrow> int \<Rightarrow> cPath option" where
  "Search d w a_StartingPoint a_EndingPoint a_MaxSteps =
     (case Construct d w a_StartingPoint a_EndingPoint a_MaxSteps of
        None \<Rightarrow> None
      | Some (launched, s) \<Rightarrow> if launched then Step d w s else Some s)"

subsection \<open>Running a search step by step\<close>

text \<open>
  \<open>StepOnceTimes n\<close> is \<open>n\<close> calls of \<^verbatim>\<open>StepOnce\<close> in a row that all return
  \<^verbatim>\<open>false\<close>; \<open>RunSteps\<close> is the constructor followed by that many steps. They give
  access to the state of a search before \<^verbatim>\<open>FinishCalculation\<close> empties the cache.
\<close>

fun StepOnceTimes :: "nat \<Rightarrow> nat \<Rightarrow> World \<Rightarrow> cPath \<Rightarrow> cPath option" where
  "StepOnceTimes 0 d w s = Some s"
| "StepOnceTimes (Suc n) d w s =
     (case StepOnce d w s of
        None \<Rightarrow> None
      | Some (True, s1) \<Rightarrow> None
      | Some (False, s1) \<Rightarrow> StepOnceTimes n d w s1)"

definition RunSteps ::
  "nat \<Rightarrow> World \<Rightarrow> Vector3i \<Rightarrow> Vector3i \<Rightarrow> int \<Rightarrow> nat \<Rightarrow> cPath option" where
  "RunSteps d w a_StartingPoint a_EndingPoint a_MaxSteps n =
     (case Construct d w a_StartingPoint a_EndingPoint a_MaxSteps of
        None \<Rightarrow> None
      | Some (launched, s) \<Rightarrow> if launched then StepOnceTimes n d w s else None)"

text \<open>The fields of a cell other than its solidity, and the cached cell of a location.\<close>

definition SearchFields ::
  "cPathCell \<Rightarrow> Vector3i \<times> int \<times> int \<times> int \<times> eCellStatus \<times> Vector3i option" where
  "SearchFields c = (m_Location c, m_F c, m_G c, m_H c, m_Status c, m_Parent c)"

definition CachedFields ::
  "Vector3i \<Rightarrow> cPath \<Rightarrow> (Vector3i \<times> int \<times> int \<times> int \<times> eCellStatus \<times> Vector3i option) option" where
  "CachedFields l s = map_option SearchFields (m_Map s l)"

definition CachedSolid :: "Vector3i \<Rightarrow> cPath \<Rightarrow> bool option" where
  "CachedSolid l s = map_option m_IsSolid (m_Map s l)"

subsection \<open>Worlds for the scenarios\<close>

definition E_BLOCK_AIR :: BLOCKTYPE where
  "E_BLOCK_AIR = 0"

definition E_BLOCK_STONE :: BLOCKTYPE where
  "E_BLOCK_STONE = 1"

text \<open>A solidity table for the scenarios: air and stationary water are not solid.\<close>

definition ScenarioIsSolid :: "BLOCKTYPE \<Rightarrow> bool" where
  "ScenarioIsSolid b \<longleftrightarrow> b \<noteq> E_BLOCK_AIR \<and> b \<noteq> E_BLOCK_STATIONARY_WATER"

text \<open>A tie-break for the scenarios: the first of the tied cells.\<close>

definition FirstPushed :: "cPath \<Rightarrow> Vector3i list \<Rightarrow> Vector3i" where
  "FirstPushed s cands = hd cands"

text \<open>A flat stone floor: stone below height 0, air from height 0 up, all chunks valid.\<close>

definition FlatFloor :: World where
  "FlatFloor =
     \<lparr>GetBlock = (\<lambda>(x, y, z). Some (if y < 0 then E_BLOCK_STONE else E_BLOCK_AIR)),
      BlockIsSolid = ScenarioIsSolid, TieBreak = FirstPushed\<rparr>"

text \<open>The flat floor with a wall two blocks high on the cells \<open>(2, 0)\<close> and \<open>(2, 1)\<close>.\<close>

definition WalledFloor :: World where
  "WalledFloor =
     \<lparr>GetBlock = (\<lambda>(x, y, z).
        Some (if y < 0 \<or> (x = 2 \<and> (z = 0 \<or> z = 1) \<and> y < 2) then E_BLOCK_STONE
              else E_BLOCK_AIR)),
      BlockIsSolid = ScenarioIsSolid, TieBreak = FirstPushed\<rparr>"

text \<open>
  The flat floor with a pit in the column \<open>x = 1, z = 0\<close>: stone up to height \<open>-3\<close>,
  a fence at height \<open>-2\<close>, the block \<open>TopBlock\<close> at height \<open>-1\<close>, air above.
\<close>

definition FencePit :: "BLOCKTYPE \<Rightarrow> World" where
  "FencePit TopBlock =
     \<lparr>GetBlock = (\<lambda>(x, y, z).
        Some (if x = 1 \<and> z = 0
              then (if y < - 2 then E_BLOCK_STONE
                    else if y = - 2 then E_BLOCK_FENCE
                    else if y = - 1 then TopBlock
                    else E_BLOCK_AIR)
              else (if y < 0 then E_BLOCK_STONE else E_BLOCK_AIR))),
      BlockIsSolid = ScenarioIsSolid, TieBreak = FirstPushed\<rparr>"


section \<open>Notions used in the statements\<close>

text \<open>
  What \<^verbatim>\<open>IsSolid\<close> returns for a location, without its side effects: a location in a
  missing or invalid chunk is solid, any other is solid when its block type is.
\<close>

definition WorldSolid :: "World \<Rightarrow> Vector3i \<Rightarrow> bool" where
  "WorldSolid w l = (case GetBlock w l of None \<Rightarrow> True | Some bt \<Rightarrow> BlockIsSolid w bt)"

definition IsFenceAt :: "World \<Rightarrow> Vector3i \<Rightarrow> bool" where
  "IsFenceAt w l \<longleftrightarrow>
     GetBlock w l = Some E_BLOCK_FENCE \<or> GetBlock w l = Some E_BLOCK_FENCE_GATE"

definition IsWaterAt :: "World \<Rightarrow> Vector3i \<Rightarrow> bool" where
  "IsWaterAt w l \<longleftrightarrow> GetBlock w l = Some E_BLOCK_STATIONARY_WATER"

text \<open>
  \<^verbatim>\<open>IsSolid\<close> of a fence fetches the cell above, \<^verbatim>\<open>IsSolid\<close> of stationary water the
  cell below, so the recursion climbs a column of fences and descends a column of water.
  In a world where every run of fences upwards and every run of water downwards is
  shorter than \<open>K\<close> blocks, a recursion budget of \<open>K + 2\<close> is enough
  (lemma \<open>GetCell_returns\<close>).
\<close>

definition ColumnsBounded :: "World \<Rightarrow> nat \<Rightarrow> bool" where
  "ColumnsBounded w K \<longleftrightarrow>
     (\<forall>l. \<exists>k<K. \<not> IsFenceAt w (vadd l (0, int k, 0))) \<and>
     (\<forall>l. \<exists>k<K. \<not> IsWaterAt w (vadd l (0, - int k, 0)))"

text \<open>The fields of the state other than the cache and the log of oracle calls.\<close>

definition OtherFields ::
  "cPath \<Rightarrow> Vector3i list \<times> ePathFinderStatus \<times> int \<times> Vector3i \<times> Vector3i \<times> Vector3i list \<times> nat" where
  "OtherFields s =
     (m_OpenList s, m_PathStatus s, m_StepsLeft s, m_Destination s, m_Source s,
      m_PathPoints s, StepOnceCalls s)"

text \<open>
  \<open>Extends w S s s' new\<close> describes what a call of \<^verbatim>\<open>GetCell\<close> may do to the state:
  it creates cells for the locations \<open>new\<close>, in this order and one oracle call each,
  all unvisited; a cell that was there before keeps its search fields, and its solidity
  changes only from not solid to solid and only when the cell below or above it is
  among \<open>S\<close> or \<open>new\<close> (the fence or the water that forces it).
\<close>

definition Extends :: "World \<Rightarrow> Vector3i set \<Rightarrow> cPath \<Rightarrow> cPath \<Rightarrow> Vector3i list \<Rightarrow> bool" where
  "Extends w S s s' new \<longleftrightarrow>
     OtherFields s' = OtherFields s \<and> OracleCalls s' = OracleCalls s @ new \<and>
     distinct new \<and> set new \<inter> dom (m_Map s) = {} \<and>
     dom (m_Map s') = dom (m_Map s) \<union> set new \<and>
     (\<forall>l c. m_Map s l = Some c \<longrightarrow>
        (\<exists>c'. m_Map s' l = Some c' \<and> SearchFields c' = SearchFields c \<and>
             (m_IsSolid c' \<noteq> m_IsSolid c \<longrightarrow>
                m_IsSolid c' \<and>
                (vadd l (0, - 1, 0) \<in> S \<union> set new \<or> vadd l (0, 1, 0) \<in> S \<union> set new)))) \<and>
     (\<forall>l \<in> set new. \<exists>c'. m_Map s' l = Some c' \<and>
          SearchFields c' = (l, 0, 0, 0, NOLIST, None) \<and> (WorldSolid w l \<longrightarrow> m_IsSolid c'))"

text \<open>
  The invariant of the cache: the oracle was called once for each cached location and
  for no other, and every cell is stored under its own location.
\<close>

definition CacheInv :: "cPath \<Rightarrow> bool" where
  "CacheInv s \<longleftrightarrow>
     distinct (OracleCalls s) \<and> set (OracleCalls s) = dom (m_Map s) \<and>
     (\<forall>l c. m_Map s l = Some c \<longrightarrow> m_Location c = l)"

text \<open>
  The value of the condition on line 94,
  \<^verbatim>\<open>GetCell(m_Source)->m_IsSolid || GetCell(m_Destination)->m_IsSolid\<close>: whether the
  start or the goal resolves as solid in the constructor (\<open>None\<close> when the evaluation
  does not return).
\<close>

definition EndpointSolid :: "nat \<Rightarrow> World \<Rightarrow> Vector3i \<Rightarrow> Vector3i \<Rightarrow> bool option" where
  "EndpointSolid d w a_StartingPoint a_EndingPoint =
     (case GetCellIsSolid d w a_StartingPoint (InitialPath a_StartingPoint a_EndingPoint) of
        None \<Rightarrow> None
      | Some (b1, s1) \<Rightarrow>
          if b1 then Some True
          else (case GetCellIsSolid d w a_EndingPoint s1 of
                  None \<Rightarrow> None
                | Some (b2, s2) \<Rightarrow> Some b2))"

text \<open>
  \<open>OnlyCacheFilled s s'\<close>: from \<open>s\<close> to \<open>s'\<close> nothing happened but cache lookups.
  The open list and the other fields are the same, no cell was removed, every cell that
  was cached has the search fields it had, and every other cell is unvisited with a null
  parent. A candidate that reaches \<^verbatim>\<open>ProcessCell\<close> and is pushed or relaxed breaks it.
\<close>

definition OnlyCacheFilled :: "cPath \<Rightarrow> cPath \<Rightarrow> bool" where
  "OnlyCacheFilled s s' \<longleftrightarrow>
     OtherFields s' = OtherFields s \<and>
     (\<forall>l. m_Map s l \<noteq> None \<longrightarrow> m_Map s' l \<noteq> None) \<and>
     (\<forall>l c'. m_Map s' l = Some c' \<longrightarrow>
        SearchFields c' =
          (case m_Map s l of Some c \<Rightarrow> SearchFields c | None \<Rightarrow> (l, 0, 0, 0, NOLIST, None)))"

text \<open>The members that are set once in the constructor.\<close>

definition Params :: "cPath \<Rightarrow> int \<times> Vector3i \<times> Vector3i" where
  "Params s = (m_StepsLeft s, m_Destination s, m_Source s)"

text \<open>The state the constructor leaves, for the scenarios (recursion budget 1).\<close>

definition StartOf :: "World \<Rightarrow> Vector3i \<Rightarrow> Vector3i \<Rightarrow> int \<Rightarrow> cPath" where
  "StartOf w a b n =
     (case Construct 1 w a b n of Some (launched, s) \<Rightarrow> s | None \<Rightarrow> InitialPath a b)"

text \<open>
  The corner of a diagonal move from \<open>p\<close> by \<open>(x, 0, z)\<close>, as the cache holds it:
  the two flanking cells \<open>p + (x, 0, 0)\<close> and \<open>p + (0, 0, z)\<close> are cached as not
  solid and the cells below them as solid.
\<close>

definition IsDiagonal :: "int \<Rightarrow> int \<Rightarrow> bool" where
  "IsDiagonal x z \<longleftrightarrow> (x = 1 \<or> x = - 1) \<and> (z = 1 \<or> z = - 1)"

definition CornerClear :: "cPath \<Rightarrow> Vector3i \<Rightarrow> int \<Rightarrow> int \<Rightarrow> bool" where
  "CornerClear s p x z \<longleftrightarrow>
     CachedSolid (vadd p (x, 0, 0)) s = Some False \<and>
     CachedSolid (vadd p (0, 0, z)) s = Some False \<and>
     CachedSolid (vadd p (x, - 1, 0)) s = Some True \<and>
     CachedSolid (vadd p (0, - 1, z)) s = Some True"

text \<open>
  The solidity of a cached cell changes only when the cell below or above it is resolved
  for the first time, and only to solid. A cell is \<open>Settled\<close> when this can no longer
  happen: it is solid, or the cells below and above it are cached too.
  \<open>Advances s s'\<close>: no cell left the cache and every settled cell kept its solidity.
\<close>

definition Settled :: "cPath \<Rightarrow> Vector3i \<Rightarrow> bool" where
  "Settled s l \<longleftrightarrow>
     CachedSolid l s = Some True \<or>
     (CachedSolid l s \<noteq> None \<and> CachedSolid (vadd l (0, - 1, 0)) s \<noteq> None \<and>
      CachedSolid (vadd l (0, 1, 0)) s \<noteq> None)"

definition Advances :: "cPath \<Rightarrow> cPath \<Rightarrow> bool" where
  "Advances s s' \<longleftrightarrow>
     (\<forall>l. CachedSolid l s \<noteq> None \<longrightarrow> CachedSolid l s' \<noteq> None) \<and>
     (\<forall>l. Settled s l \<longrightarrow> CachedSolid l s' = CachedSolid l s)"

definition StableCorner :: "cPath \<Rightarrow> Vector3i \<Rightarrow> int \<Rightarrow> int \<Rightarrow> bool" where
  "StableCorner s p x z \<longleftrightarrow>
     CornerClear s p x z \<and> Settled s (vadd p (x, 0, 0)) \<and> Settled s (vadd p (0, 0, z))"

definition Fills :: "cPath \<Rightarrow> cPath \<Rightarrow> bool" where
  "Fills s s' \<longleftrightarrow> OnlyCacheFilled s s' \<and> Advances s s'"

text \<open>
  The invariant of a running search that the diagonal rule rests on: every cell is stored
  under its own location, no waypoint has been emitted yet, and every parent link that is
  a diagonal move has a clear corner whose flanking cells are settled.
\<close>

definition DiagInv :: "cPath \<Rightarrow> bool" where
  "DiagInv s \<longleftrightarrow>
     (\<forall>q c p x z. m_Map s q = Some c \<longrightarrow> m_Parent c = Some p \<longrightarrow> IsDiagonal x z \<longrightarrow>
        q = vadd p (x, 0, z) \<longrightarrow> StableCorner s p x z)"

definition SearchInv :: "cPath \<Rightarrow> bool" where
  "SearchInv s \<longleftrightarrow>
     (\<forall>l c. m_Map s l = Some c \<longrightarrow> m_Location c = l) \<and> m_PathPoints s = [] \<and> DiagInv s"

text \<open>\<open>Linked m ps\<close>: each location of \<open>ps\<close> has the next one as its parent in \<open>m\<close>.\<close>

fun Linked :: "(Vector3i \<Rightarrow> cPathCell option) \<Rightarrow> Vector3i list \<Rightarrow> bool" where
  "Linked m (q # p # ps) =
     ((case m q of None \<Rightarrow> False | Some c \<Rightarrow> m_Parent c = Some p) \<and> Linked m (p # ps))"
| "Linked m ps = True"

section \<open>Lemmas\<close>

subsection \<open>The cell cache\<close>

lemma vadd_up_down [simp]:
  "vadd (vadd l (0, 1, 0)) (0, - 1, 0) = l"
  "vadd (vadd l (0, - 1, 0)) (0, 1, 0) = l"
  "vadd l (0, 1, 0) \<noteq> l" "vadd l (0, - 1, 0) \<noteq> l"
  "l \<noteq> vadd l (0, 1, 0)" "l \<noteq> vadd l (0, - 1, 0)"
  by (cases l; simp)+

lemma CellWrite_Some:
  "CellWrite p f s = Some s' \<longleftrightarrow>
     (\<exists>c. m_Map s p = Some c \<and> s' = s\<lparr>m_Map := (m_Map s)(p \<mapsto> f c)\<rparr>)"
  by (auto simp: CellWrite_def split: option.splits)

lemma OtherFields_updates [simp]:
  "OtherFields (s\<lparr>m_Map := m\<rparr>) = OtherFields s"
  "OtherFields (s\<lparr>OracleCalls := oc\<rparr>) = OtherFields s"
  by (simp_all add: OtherFields_def)

lemma Extends_refl: "Extends w S s s []"
  unfolding Extends_def by auto

lemma Extends_mono: "Extends w S s s' new \<Longrightarrow> S \<subseteq> T \<Longrightarrow> Extends w T s s' new"
  unfolding Extends_def by (elim conjE, intro conjI; blast)

lemma Extends_frame:
  assumes "Extends w S s s' new"
  shows "OracleCalls s' = OracleCalls s @ new" "m_OpenList s' = m_OpenList s"
    "m_PathStatus s' = m_PathStatus s" "m_StepsLeft s' = m_StepsLeft s"
    "m_Destination s' = m_Destination s" "m_Source s' = m_Source s"
    "m_PathPoints s' = m_PathPoints s" "StepOnceCalls s' = StepOnceCalls s"
    "OtherFields s' = OtherFields s"
  using assms unfolding Extends_def OtherFields_def by simp_all

lemma Extends_distinct:
  assumes "Extends w S s s' new"
  shows "distinct new" "set new \<inter> dom (m_Map s) = {}"
    "dom (m_Map s') = dom (m_Map s) \<union> set new"
  using assms unfolding Extends_def by simp_all

lemma Extends_old:
  assumes "Extends w S s s' new" "m_Map s l = Some c"
  shows "\<exists>c'. m_Map s' l = Some c' \<and> SearchFields c' = SearchFields c \<and>
       (m_IsSolid c' \<noteq> m_IsSolid c \<longrightarrow>
          m_IsSolid c' \<and>
          (vadd l (0, - 1, 0) \<in> S \<union> set new \<or> vadd l (0, 1, 0) \<in> S \<union> set new))"
  using assms unfolding Extends_def by blast

lemma Extends_new:
  assumes "Extends w S s s' new" "l \<in> set new"
  shows "\<exists>c'. m_Map s' l = Some c' \<and>
          SearchFields c' = (l, 0, 0, 0, NOLIST, None) \<and> (WorldSolid w l \<longrightarrow> m_IsSolid c')"
  using assms unfolding Extends_def by blast

lemma ExtendsI:
  assumes "OtherFields s' = OtherFields s" "OracleCalls s' = OracleCalls s @ new"
    "distinct new" "set new \<inter> dom (m_Map s) = {}"
    "dom (m_Map s') = dom (m_Map s) \<union> set new"
    "\<And>l c. m_Map s l = Some c \<Longrightarrow>
        \<exists>c'. m_Map s' l = Some c' \<and> SearchFields c' = SearchFields c \<and>
             (m_IsSolid c' \<noteq> m_IsSolid c \<longrightarrow>
                m_IsSolid c' \<and>
                (vadd l (0, - 1, 0) \<in> S \<union> set new \<or> vadd l (0, 1, 0) \<in> S \<union> set new))"
    "\<And>l. l \<in> set new \<Longrightarrow> \<exists>c'. m_Map s' l = Some c' \<and>
          SearchFields c' = (l, 0, 0, 0, NOLIST, None) \<and> (WorldSolid w l \<longrightarrow> m_IsSolid c')"
  shows "Extends w S s s' new"
  unfolding Extends_def using assms by blast

text \<open>Forcing a cell solid after it has been fetched, as IsSolid does for the cell
  above a fence and the cell below water.\<close>

lemma Extends_force:
  assumes ext: "Extends w {} s s1 new" and c: "m_Map s1 p = Some c"
    and src: "vadd p (0, - 1, 0) = a \<or> vadd p (0, 1, 0) = a"
  shows "Extends w {a} s (s1\<lparr>m_Map := (m_Map s1)(p \<mapsto> c\<lparr>m_IsSolid := True\<rparr>)\<rparr>) new"
proof (rule ExtendsI)
  let ?s' = "s1\<lparr>m_Map := (m_Map s1)(p \<mapsto> c\<lparr>m_IsSolid := True\<rparr>)\<rparr>"
  show "OtherFields ?s' = OtherFields s" "OracleCalls ?s' = OracleCalls s @ new"
    using Extends_frame[OF ext] by simp_all
  show "distinct new" "set new \<inter> dom (m_Map s) = {}"
    using Extends_distinct[OF ext] by auto
  show "dom (m_Map ?s') = dom (m_Map s) \<union> set new"
    using Extends_distinct(3)[OF ext] c by auto
  show "\<exists>c'. m_Map ?s' l = Some c' \<and> SearchFields c' = SearchFields c0 \<and>
             (m_IsSolid c' \<noteq> m_IsSolid c0 \<longrightarrow>
                m_IsSolid c' \<and>
                (vadd l (0, - 1, 0) \<in> {a} \<union> set new \<or> vadd l (0, 1, 0) \<in> {a} \<union> set new))"
    if "m_Map s l = Some c0" for l c0
    using Extends_old[OF ext that] c src by (cases "l = p") (auto simp: SearchFields_def)
  show "\<exists>c'. m_Map ?s' l = Some c' \<and>
          SearchFields c' = (l, 0, 0, 0, NOLIST, None) \<and> (WorldSolid w l \<longrightarrow> m_IsSolid c')"
    if "l \<in> set new" for l
    using Extends_new[OF ext that] c by (cases "l = p") (auto simp: SearchFields_def)
qed

lemma block_constants_distinct [simp]:
  "E_BLOCK_FENCE \<noteq> E_BLOCK_STATIONARY_WATER" "E_BLOCK_FENCE_GATE \<noteq> E_BLOCK_STATIONARY_WATER"
  "E_BLOCK_STATIONARY_WATER \<noteq> E_BLOCK_FENCE" "E_BLOCK_STATIONARY_WATER \<noteq> E_BLOCK_FENCE_GATE"
  by (simp_all add: E_BLOCK_FENCE_def E_BLOCK_FENCE_GATE_def E_BLOCK_STATIONARY_WATER_def)

declare IsSolid.simps [simp del] GetCell.simps(2) [simp del]

lemma GetCell_cached: "m_Map s a = Some c \<Longrightarrow> GetCell (Suc d) w a s = Some s"
  by (simp add: GetCell.simps(2))

lemma GetCell_fresh:
  "m_Map s a = None \<Longrightarrow> GetCell (Suc d) w a s =
     (case IsSolid d w a (s\<lparr>m_Map := (m_Map s)(a \<mapsto> new_cPathCell\<lparr>m_Location := a\<rparr>)\<rparr>) of
        None \<Rightarrow> None
      | Some (b, s1) \<Rightarrow> CellWrite a (\<lambda>c. c\<lparr>m_IsSolid := b, m_Status := NOLIST\<rparr>) s1)"
  by (simp add: GetCell.simps(2))

lemma IsSolid_invalid:
  "GetBlock w a = None \<Longrightarrow>
     IsSolid d w a s = Some (True, s\<lparr>OracleCalls := OracleCalls s @ [a]\<rparr>)"
  by (simp add: IsSolid.simps Let_def)

lemma IsSolid_plain:
  "GetBlock w a = Some bt \<Longrightarrow> bt \<noteq> E_BLOCK_FENCE \<Longrightarrow> bt \<noteq> E_BLOCK_FENCE_GATE \<Longrightarrow>
   bt \<noteq> E_BLOCK_STATIONARY_WATER \<Longrightarrow>
     IsSolid d w a s = Some (BlockIsSolid w bt, s\<lparr>OracleCalls := OracleCalls s @ [a]\<rparr>)"
  by (simp add: IsSolid.simps Let_def)

lemma IsSolid_fence:
  "GetBlock w a = Some bt \<Longrightarrow> bt = E_BLOCK_FENCE \<or> bt = E_BLOCK_FENCE_GATE \<Longrightarrow>
   GetCell d w (vadd a (0, 1, 0)) (s\<lparr>OracleCalls := OracleCalls s @ [a]\<rparr>) = Some s1 \<Longrightarrow>
   m_Map s1 (vadd a (0, 1, 0)) = Some c \<Longrightarrow>
     IsSolid d w a s =
       Some (BlockIsSolid w bt, s1\<lparr>m_Map := (m_Map s1)(vadd a (0, 1, 0) \<mapsto> c\<lparr>m_IsSolid := True\<rparr>)\<rparr>)"
  by (auto simp add: IsSolid.simps Let_def CellWrite_def)

lemma IsSolid_water:
  "GetBlock w a = Some bt \<Longrightarrow> bt = E_BLOCK_STATIONARY_WATER \<Longrightarrow>
   GetCell d w (vadd a (0, - 1, 0)) (s\<lparr>OracleCalls := OracleCalls s @ [a]\<rparr>) = Some s1 \<Longrightarrow>
   m_Map s1 (vadd a (0, - 1, 0)) = Some c \<Longrightarrow>
     IsSolid d w a s =
       Some (BlockIsSolid w bt, s1\<lparr>m_Map := (m_Map s1)(vadd a (0, - 1, 0) \<mapsto> c\<lparr>m_IsSolid := True\<rparr>)\<rparr>)"
  by (auto simp add: IsSolid.simps Let_def CellWrite_def)

lemma IsSolid_cases:
  assumes "IsSolid d w a s0 = Some (b, s')"
  obtains
    (invalid) "GetBlock w a = None" "b" "s' = s0\<lparr>OracleCalls := OracleCalls s0 @ [a]\<rparr>"
  | (fence) bt s1 c where "GetBlock w a = Some bt"
      "bt = E_BLOCK_FENCE \<or> bt = E_BLOCK_FENCE_GATE"
      "GetCell d w (vadd a (0, 1, 0)) (s0\<lparr>OracleCalls := OracleCalls s0 @ [a]\<rparr>) = Some s1"
      "m_Map s1 (vadd a (0, 1, 0)) = Some c"
      "s' = s1\<lparr>m_Map := (m_Map s1)(vadd a (0, 1, 0) \<mapsto> c\<lparr>m_IsSolid := True\<rparr>)\<rparr>"
      "b = BlockIsSolid w bt"
  | (water) bt s1 c where "GetBlock w a = Some bt"
      "bt = E_BLOCK_STATIONARY_WATER"
      "GetCell d w (vadd a (0, - 1, 0)) (s0\<lparr>OracleCalls := OracleCalls s0 @ [a]\<rparr>) = Some s1"
      "m_Map s1 (vadd a (0, - 1, 0)) = Some c"
      "s' = s1\<lparr>m_Map := (m_Map s1)(vadd a (0, - 1, 0) \<mapsto> c\<lparr>m_IsSolid := True\<rparr>)\<rparr>"
      "b = BlockIsSolid w bt"
  | (plain) bt where "GetBlock w a = Some bt"
      "bt \<noteq> E_BLOCK_FENCE" "bt \<noteq> E_BLOCK_FENCE_GATE" "bt \<noteq> E_BLOCK_STATIONARY_WATER"
      "s' = s0\<lparr>OracleCalls := OracleCalls s0 @ [a]\<rparr>" "b = BlockIsSolid w bt"
proof (cases "GetBlock w a")
  case None
  with assms invalid show ?thesis by (simp add: IsSolid.simps Let_def)
next
  case (Some bt)
  let ?s = "s0\<lparr>OracleCalls := OracleCalls s0 @ [a]\<rparr>"
  show ?thesis
  proof (cases "bt = E_BLOCK_FENCE \<or> bt = E_BLOCK_FENCE_GATE")
    case True
    then have nw: "bt \<noteq> E_BLOCK_STATIONARY_WATER" by auto
    from assms Some True nw obtain s1 c where
      "GetCell d w (vadd a (0, 1, 0)) ?s = Some s1" "m_Map s1 (vadd a (0, 1, 0)) = Some c"
      "s' = s1\<lparr>m_Map := (m_Map s1)(vadd a (0, 1, 0) \<mapsto> c\<lparr>m_IsSolid := True\<rparr>)\<rparr>"
      "b = BlockIsSolid w bt"
      by (auto simp: IsSolid.simps Let_def CellWrite_Some split: option.splits)
    with Some True show ?thesis by (rule fence)
  next
    case False
    show ?thesis
    proof (cases "bt = E_BLOCK_STATIONARY_WATER")
      case True
      from assms Some False True obtain s1 c where
        "GetCell d w (vadd a (0, - 1, 0)) ?s = Some s1" "m_Map s1 (vadd a (0, - 1, 0)) = Some c"
        "s' = s1\<lparr>m_Map := (m_Map s1)(vadd a (0, - 1, 0) \<mapsto> c\<lparr>m_IsSolid := True\<rparr>)\<rparr>"
        "b = BlockIsSolid w bt"
        by (auto simp: IsSolid.simps Let_def CellWrite_Some split: option.splits)
      with Some True show ?thesis by (rule water)
    next
      case nw: False
      with assms Some False have "s' = ?s" "b = BlockIsSolid w bt"
        by (auto simp: IsSolid.simps Let_def)
      with Some False nw show ?thesis by (intro plain[of bt]) auto
    qed
  qed
qed

lemma WorldSolid_simps:
  "GetBlock w a = None \<Longrightarrow> WorldSolid w a"
  "GetBlock w a = Some bt \<Longrightarrow> WorldSolid w a = BlockIsSolid w bt"
  by (simp_all add: WorldSolid_def)

lemma GetCell_Extends:
  "GetCell d w a s = Some s' \<Longrightarrow>
     \<exists>new. Extends w {} s s' new \<and>
       (m_Map s a \<noteq> None \<longrightarrow> s' = s \<and> new = []) \<and>
       (m_Map s a = None \<longrightarrow>
          a \<in> set new \<and> (\<exists>c. m_Map s' a = Some c \<and> m_IsSolid c = WorldSolid w a))"
  "IsSolid d w a s = Some (b, s'') \<Longrightarrow> m_Map s a \<noteq> None \<Longrightarrow>
     b = WorldSolid w a \<and>
     (\<exists>new. Extends w {a} (s\<lparr>OracleCalls := OracleCalls s @ [a]\<rparr>) s'' new)"
proof (induction d w a s and d w a s arbitrary: s' and b s'' rule: GetCell_IsSolid.induct)
  case (1 w a s)
  then show ?case by simp
next
  case (2 d w a s)
  show ?case
  proof (cases "m_Map s a = None")
    case False
    with "2.prems" show ?thesis by (auto simp: Extends_refl GetCell.simps(2))
  next
    case True
    let ?ins = "s\<lparr>m_Map := (m_Map s)(a \<mapsto> new_cPathCell\<lparr>m_Location := a\<rparr>)\<rparr>"
    from True "2.prems" obtain b s1 c1 where
      run: "IsSolid d w a ?ins = Some (b, s1)"
      and c1: "m_Map s1 a = Some c1"
      and s': "s' = s1\<lparr>m_Map := (m_Map s1)(a \<mapsto> c1\<lparr>m_IsSolid := b, m_Status := NOLIST\<rparr>)\<rparr>"
      by (auto simp: GetCell.simps(2) CellWrite_Some split: option.splits)
    from "2.IH"[OF True run] obtain new where
      b: "b = WorldSolid w a" and
      ext: "Extends w {a} (?ins\<lparr>OracleCalls := OracleCalls ?ins @ [a]\<rparr>) s1 new"
      by auto
    have d: "distinct new" "set new \<inter> dom (m_Map ?ins) = {}"
      and dm: "dom (m_Map s1) = dom (m_Map ?ins) \<union> set new"
      using Extends_distinct[OF ext] by simp_all
    have old: "\<exists>c'. m_Map s1 l = Some c' \<and> SearchFields c' = SearchFields c \<and>
             (m_IsSolid c' \<noteq> m_IsSolid c \<longrightarrow>
                m_IsSolid c' \<and>
                (vadd l (0, - 1, 0) \<in> {a} \<union> set new \<or> vadd l (0, 1, 0) \<in> {a} \<union> set new))"
      if "m_Map ?ins l = Some c" for l c
      using Extends_old[OF ext, of l c] that by simp
    note nw = Extends_new[OF ext]
    have an: "a \<notin> set new" using d(2) by auto
    have 1: "OtherFields s' = OtherFields s" "OracleCalls s' = OracleCalls s @ a # new"
      unfolding s' using Extends_frame(1,9)[OF ext] by simp_all
    have 2: "distinct (a # new)" "set (a # new) \<inter> dom (m_Map s) = {}"
      using d an True by auto
    have 3: "dom (m_Map s') = dom (m_Map s) \<union> set (a # new)"
      unfolding s' using dm by auto
    have 4: "\<exists>c'. m_Map s' l = Some c' \<and> SearchFields c' = SearchFields c \<and>
             (m_IsSolid c' \<noteq> m_IsSolid c \<longrightarrow>
                m_IsSolid c' \<and>
                (vadd l (0, - 1, 0) \<in> {} \<union> set (a # new) \<or> vadd l (0, 1, 0) \<in> {} \<union> set (a # new)))"
      if "m_Map s l = Some c" for l c
    proof -
      from that True have "l \<noteq> a" by auto
      with that have "m_Map ?ins l = Some c" by simp
      from old[OF this] \<open>l \<noteq> a\<close> show ?thesis unfolding s' by auto
    qed
    have "m_Map ?ins a = Some (new_cPathCell\<lparr>m_Location := a\<rparr>)" by simp
    from old[OF this] c1 have c1f: "SearchFields c1 = SearchFields (new_cPathCell\<lparr>m_Location := a\<rparr>)"
      by auto
    have 5: "\<exists>c'. m_Map s' l = Some c' \<and>
          SearchFields c' = (l, 0, 0, 0, NOLIST, None) \<and> (WorldSolid w l \<longrightarrow> m_IsSolid c')"
      if "l \<in> set (a # new)" for l
    proof (cases "l = a")
      case True
      then show ?thesis unfolding s' using c1f b
        by (auto simp: SearchFields_def new_cPathCell_def)
    next
      case False
      with that have "l \<in> set new" by simp
      from nw[OF this] False show ?thesis unfolding s' by auto
    qed
    have "Extends w {} s s' (a # new)"
      using 1 2 3 4 5 by (rule ExtendsI)
    moreover have "\<exists>c. m_Map s' a = Some c \<and> m_IsSolid c = WorldSolid w a"
      unfolding s' using b by simp
    ultimately show ?thesis using True by (intro exI[of _ "a # new"]) simp
  qed
next
  case (3 d w a s0)
  let ?s = "s0\<lparr>OracleCalls := OracleCalls s0 @ [a]\<rparr>"
  from "3.prems"(1) show ?case
  proof (cases rule: IsSolid_cases)
    case invalid
    then show ?thesis using Extends_refl[of w "{a}" ?s] by (auto simp: WorldSolid_simps)
  next
    case (fence bt s1 c)
    from "3.IH"(1)[OF refl fence(1,2,3)] obtain new where "Extends w {} ?s s1 new" by blast
    from Extends_force[OF this fence(4), of a] fence show ?thesis
      by (auto simp: WorldSolid_simps)
  next
    case (water bt s1 c)
    have "(if bt = E_BLOCK_FENCE \<or> bt = E_BLOCK_FENCE_GATE
            then case GetCell d w (vadd a (0, 1, 0)) ?s of
                 None \<Rightarrow> None
                 | Some x \<Rightarrow>
                     CellWrite (vadd a (0, 1, 0))
                      (m_IsSolid_update (\<lambda>_. True)) x
            else Some ?s) = Some ?s" using water(2) by simp
    from "3.IH"(2)[OF refl water(1) this water(2,3)] obtain new where "Extends w {} ?s s1 new" by blast
    from Extends_force[OF this water(4), of a] water show ?thesis
      by (auto simp: WorldSolid_simps)
  next
    case (plain bt)
    then show ?thesis using Extends_refl[of w "{a}" ?s] by (auto simp: WorldSolid_simps)
  qed
qed

lemma CacheInv_Extends:
  assumes "CacheInv s" "Extends w S s s' new"
  shows "CacheInv s'"
proof -
  from assms(2) have lg: "OracleCalls s' = OracleCalls s @ new" by (rule Extends_frame)
  note d = Extends_distinct(1,2)[OF assms(2)] and dm = Extends_distinct(3)[OF assms(2)]
  note old = Extends_old[OF assms(2)] and nw = Extends_new[OF assms(2)]
  from assms(1) have i1: "distinct (OracleCalls s)" and i2: "set (OracleCalls s) = dom (m_Map s)"
    and i3: "\<And>l c. m_Map s l = Some c \<Longrightarrow> m_Location c = l"
    unfolding CacheInv_def by auto
  have 1: "distinct (OracleCalls s')" unfolding lg using d i1 i2 by auto
  have 2: "set (OracleCalls s') = dom (m_Map s')" unfolding lg dm using i2 by simp
  have 3: "m_Location c' = l" if "m_Map s' l = Some c'" for l c'
  proof (cases "m_Map s l")
    case None
    from that have "l \<in> dom (m_Map s')" by auto
    with None dm have "l \<in> set new" by auto
    from nw[OF this] that show ?thesis by (auto simp: SearchFields_def)
  next
    case (Some c)
    from old[OF Some] that i3[OF Some] show ?thesis by (auto simp: SearchFields_def)
  qed
  show ?thesis unfolding CacheInv_def
  proof (intro conjI allI impI)
    show "distinct (OracleCalls s')" by (rule 1)
    show "set (OracleCalls s') = dom (m_Map s')" by (rule 2)
    show "m_Location c = l" if "m_Map s' l = Some c" for l c using that by (rule 3)
  qed
qed

lemma CacheInv_InitialPath: "CacheInv (InitialPath a b)"
  by (simp add: CacheInv_def InitialPath_def)

lemma GetCell_once:
  assumes "CacheInv s" and "GetCell d w l s = Some s'"
  shows "CacheInv s' \<and> m_Map s' l \<noteq> None \<and>
         (\<exists>new. OracleCalls s' = OracleCalls s @ new \<and>
            (m_Map s l \<noteq> None \<longrightarrow> s' = s \<and> new = []) \<and>
            (m_Map s l = None \<longrightarrow> l \<in> set new))"
proof -
  from GetCell_Extends(1)[OF assms(2)] obtain new where
    all: "Extends w {} s s' new \<and>
       (m_Map s l \<noteq> None \<longrightarrow> s' = s \<and> new = []) \<and>
       (m_Map s l = None \<longrightarrow>
          l \<in> set new \<and> (\<exists>c. m_Map s' l = Some c \<and> m_IsSolid c = WorldSolid w l))" ..
  from all have ext: "Extends w {} s s' new" by (rule conjunct1)
  from all have hit: "m_Map s l \<noteq> None \<longrightarrow> s' = s \<and> new = []" by (elim conjE)
  from all have miss: "m_Map s l = None \<longrightarrow> l \<in> set new \<and> (\<exists>c. m_Map s' l = Some c \<and> m_IsSolid c = WorldSolid w l)"
    by (elim conjE)
  have 1: "CacheInv s'" using assms(1) ext by (rule CacheInv_Extends)
  have "l \<in> dom (m_Map s')"
    using Extends_distinct(3)[OF ext] miss by (cases "m_Map s l") auto
  then have 2: "m_Map s' l \<noteq> None" by auto
  have 3: "OracleCalls s' = OracleCalls s @ new" using ext by (rule Extends_frame)
  have 4: "m_Map s l = None \<longrightarrow> l \<in> set new" using miss by simp
  show ?thesis
    by (intro conjI exI[of _ new]) (rule 1 2 3 hit 4)+
qed

lemma GetCell_Extends_all:
  assumes "GetCell d w a s = Some s'"
  obtains new where "Extends w {} s s' new"
    "m_Map s a \<noteq> None \<longrightarrow> s' = s \<and> new = []"
    "m_Map s a = None \<longrightarrow>
       a \<in> set new \<and> (\<exists>c. m_Map s' a = Some c \<and> m_IsSolid c = WorldSolid w a)"
proof -
  from GetCell_Extends(1)[OF assms] obtain new where
    all: "Extends w {} s s' new \<and>
       (m_Map s a \<noteq> None \<longrightarrow> s' = s \<and> new = []) \<and>
       (m_Map s a = None \<longrightarrow>
          a \<in> set new \<and> (\<exists>c. m_Map s' a = Some c \<and> m_IsSolid c = WorldSolid w a))" ..
  from all have ext: "Extends w {} s s' new" by (rule conjunct1)
  from all have hit: "m_Map s a \<noteq> None \<longrightarrow> s' = s \<and> new = []" by (elim conjE)
  from all have miss: "m_Map s a = None \<longrightarrow>
      a \<in> set new \<and> (\<exists>c. m_Map s' a = Some c \<and> m_IsSolid c = WorldSolid w a)"
    by (elim conjE)
  from ext hit miss show thesis by (rule that)
qed

lemma GetCell_Extends_ex:
  assumes "GetCell d w a s = Some s'"
  shows "\<exists>new. Extends w {} s s' new \<and> (m_Map s a = None \<longrightarrow> a \<in> set new)"
proof -
  from assms obtain new where 1: "Extends w {} s s' new" and
    2: "m_Map s a \<noteq> None \<longrightarrow> s' = s \<and> new = []" and
    3: "m_Map s a = None \<longrightarrow>
       a \<in> set new \<and> (\<exists>c. m_Map s' a = Some c \<and> m_IsSolid c = WorldSolid w a)"
    by (rule GetCell_Extends_all)
  from 3 have "m_Map s a = None \<longrightarrow> a \<in> set new" by simp
  with 1 have "Extends w {} s s' new \<and> (m_Map s a = None \<longrightarrow> a \<in> set new)" ..
  then show ?thesis ..
qed

lemma GetCell_fresh_solid:
  assumes "GetCell d w a s = Some s'" "m_Map s a = None"
  shows "\<exists>c. m_Map s' a = Some c \<and> m_IsSolid c = WorldSolid w a"
proof -
  from assms(1) obtain new where 1: "Extends w {} s s' new" and
    2: "m_Map s a \<noteq> None \<longrightarrow> s' = s \<and> new = []" and
    3: "m_Map s a = None \<longrightarrow>
       a \<in> set new \<and> (\<exists>c. m_Map s' a = Some c \<and> m_IsSolid c = WorldSolid w a)"
    by (rule GetCell_Extends_all)
  from 3 assms(2) show ?thesis by simp
qed

lemma GetCell_hit:
  assumes "GetCell d w a s = Some s'" "m_Map s a \<noteq> None"
  shows "s' = s"
proof -
  from assms(1) obtain new where 1: "Extends w {} s s' new" and
    2: "m_Map s a \<noteq> None \<longrightarrow> s' = s \<and> new = []"
    by (rule GetCell_Extends_all)
  from 2 assms(2) show ?thesis by (elim impE conjE)
qed

lemma GetCell_present:
  assumes "GetCell d w a s = Some s'"
  shows "m_Map s' a \<noteq> None"
proof (cases "m_Map s a")
  case None
  from GetCell_fresh_solid[OF assms None] show ?thesis by auto
next
  case (Some c)
  then have "m_Map s a \<noteq> None" by simp
  from GetCell_hit[OF assms this] Some show ?thesis by simp
qed

lemma GetCell_ExtendsE:
  assumes "GetCell d w a s = Some s'"
  obtains new where "Extends w {} s s' new" "m_Map s' a \<noteq> None"
proof -
  from GetCell_Extends_ex[OF assms] obtain new where "Extends w {} s s' new" by blast
  with GetCell_present[OF assms] that show thesis by blast
qed

lemma vadd_int_steps:
  "vadd (vadd l (0, 1, 0)) (0, int k, 0) = vadd l (0, int (Suc k), 0)"
  "vadd (vadd l (0, - 1, 0)) (0, - int k, 0) = vadd l (0, - int (Suc k), 0)"
  "vadd l (0, 0, 0) = l"
  by (cases l; simp)+

text \<open>Going up a column of fences: the cell below is already cached.\<close>

lemma GetCell_returns_up:
  "\<exists>j<k. \<not> IsFenceAt w (vadd l (0, int j, 0)) \<Longrightarrow> m_Map s (vadd l (0, - 1, 0)) \<noteq> None \<Longrightarrow>
   k < d \<Longrightarrow> GetCell d w l s \<noteq> None"
proof (induction k arbitrary: l s d)
  case 0
  then show ?case by simp
next
  case (Suc k)
  from Suc.prems(3) obtain d' where d: "d = Suc d'" and kd: "k < d'" by (cases d) auto
  show ?case
  proof (cases "m_Map s l")
    case (Some c)
    then show ?thesis unfolding d by (simp add: GetCell_cached)
  next
    case None
    let ?ins = "s\<lparr>m_Map := (m_Map s)(l \<mapsto> new_cPathCell\<lparr>m_Location := l\<rparr>)\<rparr>"
    let ?s = "?ins\<lparr>OracleCalls := OracleCalls ?ins @ [l]\<rparr>"
    have "\<exists>b s1 c. IsSolid d' w l ?ins = Some (b, s1) \<and> m_Map s1 l = Some c"
    proof (cases "GetBlock w l")
      case None
      then show ?thesis by (auto simp add: IsSolid_invalid)
    next
      case (Some bt)
      show ?thesis
      proof (cases "bt = E_BLOCK_FENCE \<or> bt = E_BLOCK_FENCE_GATE")
        case fence: True
        from fence Some have "IsFenceAt w l" by (auto simp: IsFenceAt_def)
        with Suc.prems(1) obtain j where j: "j < Suc k" "\<not> IsFenceAt w (vadd l (0, int j, 0))"
          by blast
        with \<open>IsFenceAt w l\<close> have "j \<noteq> 0" by (cases j) (auto simp: vadd_int_steps)
        then obtain j' where j': "j = Suc j'" by (cases j) auto
        with j have "\<exists>j<k. \<not> IsFenceAt w (vadd (vadd l (0, 1, 0)) (0, int j, 0))"
          by (intro exI[of _ j']) (simp add: vadd_int_steps del: of_nat_Suc)
        moreover have "m_Map ?s (vadd (vadd l (0, 1, 0)) (0, - 1, 0)) \<noteq> None" by simp
        ultimately have "GetCell d' w (vadd l (0, 1, 0)) ?s \<noteq> None"
          using kd by (rule Suc.IH)
        then obtain s1 where g: "GetCell d' w (vadd l (0, 1, 0)) ?s = Some s1" by auto
        from g obtain new where ext: "Extends w {} ?s s1 new" and
          here: "m_Map s1 (vadd l (0, 1, 0)) \<noteq> None"
          by (rule GetCell_ExtendsE)
        from here obtain c where c: "m_Map s1 (vadd l (0, 1, 0)) = Some c" by auto
        have "m_Map ?s l = Some (new_cPathCell\<lparr>m_Location := l\<rparr>)" by simp
        from Extends_old[OF ext this] obtain c' where "m_Map s1 l = Some c'" by auto
        with IsSolid_fence[OF Some fence g c] show ?thesis by simp
      next
        case nf: False
        show ?thesis
        proof (cases "bt = E_BLOCK_STATIONARY_WATER")
          case True
          from Suc.prems(2) obtain c where c: "m_Map ?s (vadd l (0, - 1, 0)) = Some c" by auto
          moreover from kd obtain d'' where "d' = Suc d''" by (cases d') auto
          ultimately have g: "GetCell d' w (vadd l (0, - 1, 0)) ?s = Some ?s"
            by (simp add: GetCell_cached)
          from IsSolid_water[OF Some True g c] show ?thesis by simp
        next
          case False
          with Some nf show ?thesis by (auto simp add: IsSolid_plain)
        qed
      qed
    qed
    then obtain b s1 c where "IsSolid d' w l ?ins = Some (b, s1)" "m_Map s1 l = Some c" by auto
    with None show ?thesis unfolding d by (simp add: GetCell_fresh CellWrite_def)
  qed
qed

text \<open>Going down a column of water: the cell above is already cached.\<close>

lemma GetCell_returns_down:
  "\<exists>j<k. \<not> IsWaterAt w (vadd l (0, - int j, 0)) \<Longrightarrow> m_Map s (vadd l (0, 1, 0)) \<noteq> None \<Longrightarrow>
   k < d \<Longrightarrow> GetCell d w l s \<noteq> None"
proof (induction k arbitrary: l s d)
  case 0
  then show ?case by simp
next
  case (Suc k)
  from Suc.prems(3) obtain d' where d: "d = Suc d'" and kd: "k < d'" by (cases d) auto
  show ?case
  proof (cases "m_Map s l")
    case (Some c)
    then show ?thesis unfolding d by (simp add: GetCell_cached)
  next
    case None
    let ?ins = "s\<lparr>m_Map := (m_Map s)(l \<mapsto> new_cPathCell\<lparr>m_Location := l\<rparr>)\<rparr>"
    let ?s = "?ins\<lparr>OracleCalls := OracleCalls ?ins @ [l]\<rparr>"
    have "\<exists>b s1 c. IsSolid d' w l ?ins = Some (b, s1) \<and> m_Map s1 l = Some c"
    proof (cases "GetBlock w l")
      case None
      then show ?thesis by (auto simp add: IsSolid_invalid)
    next
      case (Some bt)
      show ?thesis
      proof (cases "bt = E_BLOCK_STATIONARY_WATER")
        case water: True
        from water Some have "IsWaterAt w l" by (auto simp: IsWaterAt_def)
        with Suc.prems(1) obtain j where j: "j < Suc k" "\<not> IsWaterAt w (vadd l (0, - int j, 0))"
          by blast
        with \<open>IsWaterAt w l\<close> have "j \<noteq> 0" by (cases j) (auto simp: vadd_int_steps)
        then obtain j' where j': "j = Suc j'" by (cases j) auto
        with j have "\<exists>j<k. \<not> IsWaterAt w (vadd (vadd l (0, - 1, 0)) (0, - int j, 0))"
          by (intro exI[of _ j']) (simp add: vadd_int_steps del: of_nat_Suc)
        moreover have "m_Map ?s (vadd (vadd l (0, - 1, 0)) (0, 1, 0)) \<noteq> None" by simp
        ultimately have "GetCell d' w (vadd l (0, - 1, 0)) ?s \<noteq> None"
          using kd by (rule Suc.IH)
        then obtain s1 where g: "GetCell d' w (vadd l (0, - 1, 0)) ?s = Some s1" by auto
        from g obtain new where ext: "Extends w {} ?s s1 new" and
          here: "m_Map s1 (vadd l (0, - 1, 0)) \<noteq> None"
          by (rule GetCell_ExtendsE)
        from here obtain c where c: "m_Map s1 (vadd l (0, - 1, 0)) = Some c" by auto
        have "m_Map ?s l = Some (new_cPathCell\<lparr>m_Location := l\<rparr>)" by simp
        from Extends_old[OF ext this] obtain c' where "m_Map s1 l = Some c'" by auto
        with IsSolid_water[OF Some water g c] show ?thesis by simp
      next
        case nw: False
        show ?thesis
        proof (cases "bt = E_BLOCK_FENCE \<or> bt = E_BLOCK_FENCE_GATE")
          case True
          from Suc.prems(2) obtain c where c: "m_Map ?s (vadd l (0, 1, 0)) = Some c" by auto
          moreover from kd obtain d'' where "d' = Suc d''" by (cases d') auto
          ultimately have g: "GetCell d' w (vadd l (0, 1, 0)) ?s = Some ?s"
            by (simp add: GetCell_cached)
          from IsSolid_fence[OF Some True g c] show ?thesis by simp
        next
          case False
          with Some nw show ?thesis by (auto simp add: IsSolid_plain)
        qed
      qed
    qed
    then obtain b s1 c where "IsSolid d' w l ?ins = Some (b, s1)" "m_Map s1 l = Some c" by auto
    with None show ?thesis unfolding d by (simp add: GetCell_fresh CellWrite_def)
  qed
qed

lemma GetCell_returns:
  assumes "ColumnsBounded w K" "K + 2 \<le> d"
  shows "\<exists>s'. GetCell d w l s = Some s'"
proof -
  from assms(2) obtain d' where d: "d = Suc d'" and kd: "K < d'" by (cases d) auto
  show ?thesis
  proof (cases "m_Map s l")
    case (Some c)
    then show ?thesis unfolding d by (simp add: GetCell_cached)
  next
    case None
    let ?ins = "s\<lparr>m_Map := (m_Map s)(l \<mapsto> new_cPathCell\<lparr>m_Location := l\<rparr>)\<rparr>"
    let ?s = "?ins\<lparr>OracleCalls := OracleCalls ?ins @ [l]\<rparr>"
    have "\<exists>b s1 c. IsSolid d' w l ?ins = Some (b, s1) \<and> m_Map s1 l = Some c"
    proof (cases "GetBlock w l")
      case None
      then show ?thesis by (auto simp add: IsSolid_invalid)
    next
      case (Some bt)
      show ?thesis
      proof (cases "bt = E_BLOCK_FENCE \<or> bt = E_BLOCK_FENCE_GATE")
        case fence: True
        from assms(1) have "\<exists>j<K. \<not> IsFenceAt w (vadd (vadd l (0, 1, 0)) (0, int j, 0))"
          unfolding ColumnsBounded_def by blast
        moreover have "m_Map ?s (vadd (vadd l (0, 1, 0)) (0, - 1, 0)) \<noteq> None" by simp
        ultimately have "GetCell d' w (vadd l (0, 1, 0)) ?s \<noteq> None"
          using kd by (rule GetCell_returns_up)
        then obtain s1 where g: "GetCell d' w (vadd l (0, 1, 0)) ?s = Some s1" by auto
        from g obtain new where ext: "Extends w {} ?s s1 new" and
          here: "m_Map s1 (vadd l (0, 1, 0)) \<noteq> None"
          by (rule GetCell_ExtendsE)
        from here obtain c where c: "m_Map s1 (vadd l (0, 1, 0)) = Some c" by auto
        have "m_Map ?s l = Some (new_cPathCell\<lparr>m_Location := l\<rparr>)" by simp
        from Extends_old[OF ext this] obtain c' where "m_Map s1 l = Some c'" by auto
        with IsSolid_fence[OF Some fence g c] show ?thesis by simp
      next
        case nf: False
        show ?thesis
        proof (cases "bt = E_BLOCK_STATIONARY_WATER")
          case water: True
          from assms(1) have "\<exists>j<K. \<not> IsWaterAt w (vadd (vadd l (0, - 1, 0)) (0, - int j, 0))"
            unfolding ColumnsBounded_def by blast
          moreover have "m_Map ?s (vadd (vadd l (0, - 1, 0)) (0, 1, 0)) \<noteq> None" by simp
          ultimately have "GetCell d' w (vadd l (0, - 1, 0)) ?s \<noteq> None"
            using kd by (rule GetCell_returns_down)
          then obtain s1 where g: "GetCell d' w (vadd l (0, - 1, 0)) ?s = Some s1" by auto
          from g obtain new where ext: "Extends w {} ?s s1 new" and
            here: "m_Map s1 (vadd l (0, - 1, 0)) \<noteq> None"
            by (rule GetCell_ExtendsE)
          from here obtain c where c: "m_Map s1 (vadd l (0, - 1, 0)) = Some c" by auto
          have "m_Map ?s l = Some (new_cPathCell\<lparr>m_Location := l\<rparr>)" by simp
          from Extends_old[OF ext this] obtain c' where "m_Map s1 l = Some c'" by auto
          with IsSolid_water[OF Some water g c] show ?thesis by simp
        next
          case False
          with Some nf show ?thesis by (auto simp add: IsSolid_plain)
        qed
      qed
    qed
    then obtain b s1 c where "IsSolid d' w l ?ins = Some (b, s1)" "m_Map s1 l = Some c" by auto
    with None show ?thesis unfolding d by (simp add: GetCell_fresh CellWrite_def)
  qed
qed

lemma GetCellIsSolid_Some:
  "GetCellIsSolid d w a s = Some (b, s') \<longleftrightarrow>
     GetCell d w a s = Some s' \<and> CachedSolid a s' = Some b"
  by (auto simp: GetCellIsSolid_def CachedSolid_def split: option.splits)

lemma GetCellIsSolid_returns:
  assumes "ColumnsBounded w K" "K + 2 \<le> d"
  shows "\<exists>b s'. GetCellIsSolid d w a s = Some (b, s')"
proof -
  from GetCell_returns[OF assms] obtain s' where g: "GetCell d w a s = Some s'" by blast
  from g obtain new where "m_Map s' a \<noteq> None" by (rule GetCell_ExtendsE)
  then obtain c where "m_Map s' a = Some c" by auto
  with g show ?thesis by (simp add: GetCellIsSolid_def)
qed

subsection \<open>The constructor\<close>

lemma InitialPath_simps [simp]:
  "m_Map (InitialPath a b) = Map.empty" "m_OpenList (InitialPath a b) = []"
  "m_Destination (InitialPath a b) = b" "m_Source (InitialPath a b) = a"
  "m_PathPoints (InitialPath a b) = []" "OracleCalls (InitialPath a b) = []"
  "StepOnceCalls (InitialPath a b) = 0"
  by (simp_all add: InitialPath_def)

lemma EndpointSolid_total:
  assumes "ColumnsBounded w K" "K + 2 \<le> d"
  shows "\<exists>r. EndpointSolid d w a b = Some r"
proof -
  from GetCellIsSolid_returns[OF assms] obtain b1 s1 where
    1: "GetCellIsSolid d w a (InitialPath a b) = Some (b1, s1)" by blast
  from GetCellIsSolid_returns[OF assms] obtain b2 s2 where
    2: "GetCellIsSolid d w b s1 = Some (b2, s2)" by blast
  from 1 2 show ?thesis by (auto simp add: EndpointSolid_def)
qed

lemma EndpointSolid_start:
  assumes "GetCellIsSolid d w a (InitialPath a b) = Some (b1, s1)"
  shows "b1 = WorldSolid w a"
proof -
  from assms have g: "GetCell d w a (InitialPath a b) = Some s1" and
    c: "CachedSolid a s1 = Some b1" by (simp_all add: GetCellIsSolid_Some)
  from GetCell_fresh_solid[OF g] obtain c0 where "m_Map s1 a = Some c0" "m_IsSolid c0 = WorldSolid w a" by auto
  with c show ?thesis by (simp add: CachedSolid_def)
qed

lemma Construct_solid:
  assumes "EndpointSolid d w a b = Some True"
  shows "\<exists>s. Construct d w a b n = Some (False, s) \<and> m_PathStatus s = PATH_NOT_FOUND \<and>
           StepOnceCalls s = 0 \<and> m_OpenList s = [] \<and> m_PathPoints s = [] \<and>
           Search d w a b n = Some s"
proof -
  from assms obtain b1 s1 where
    1: "GetCellIsSolid d w a (InitialPath a b) = Some (b1, s1)"
    by (auto simp: EndpointSolid_def split: option.splits)
  from 1 have "GetCell d w a (InitialPath a b) = Some s1" by (simp add: GetCellIsSolid_Some)
  then obtain new1 where e1: "Extends w {} (InitialPath a b) s1 new1" by (rule GetCell_ExtendsE)
  note f1 = Extends_frame[OF e1]
  show ?thesis
  proof (cases b1)
    case True
    with 1 f1 show ?thesis by (simp add: Construct_def Search_def)
  next
    case False
    with assms 1 obtain s2 where 2: "GetCellIsSolid d w b s1 = Some (True, s2)"
      by (auto simp: EndpointSolid_def split: option.splits)
    from 2 have "GetCell d w b s1 = Some s2" by (simp add: GetCellIsSolid_Some)
    then obtain new2 where e2: "Extends w {} s1 s2 new2" by (rule GetCell_ExtendsE)
    note f2 = Extends_frame[OF e2]
    from 1 2 False f1 f2 show ?thesis by (simp add: Construct_def Search_def)
  qed
qed

lemma PopulatePath_root:
  assumes "m_Map s a = Some c" "m_Parent c = None"
  shows "PopulatePath a s = Some (s\<lparr>m_PathPoints := m_PathPoints s @ [m_Location c]\<rparr>)"
  using assms by (subst PopulatePath.simps) simp

lemma LeastF_single [simp]: "LeastF s [a] = [a]"
  by (simp add: LeastF_def)

lemma Construct_clear:
  assumes "EndpointSolid d w a b = Some False" "Length10 (vsub a b) = Some h"
  shows "\<exists>s s1. Construct d w a b n = Some (True, s) \<and> m_PathStatus s = CALCULATING \<and>
           m_StepsLeft s = n \<and> m_OpenList s = [a] \<and> StepOnceCalls s = 0 \<and>
           m_PathPoints s = [] \<and>
           CachedFields a s = Some (a, h, 0, h, OPENLIST, None) \<and>
           OpenListPop w (s\<lparr>StepOnceCalls := Suc (StepOnceCalls s)\<rparr>) = Some (Some a, s1) \<and>
           m_OpenList s1 = [] \<and>
           CachedFields a s1 = Some (a, h, 0, h, CLOSEDLIST, None) \<and>
           StepOnce d w s =
             (if IsNextToDestination a b
              then Some (True, FinishCalculationAs PATH_FOUND (s1\<lparr>m_PathPoints := [a]\<rparr>))
              else (case ForEach OrthogonalOffsets
                           (\<lambda>off. ProcessIfWalkable d w (vadd a off) a 10) s1 of
                      None \<Rightarrow> None
                    | Some s2 \<Rightarrow>
                        (case ForEach DiagonalOffsets (ProcessDiagonal d w a a) s2 of
                           None \<Rightarrow> None
                         | Some s3 \<Rightarrow> Some (False, s3))))"
proof -
  from assms(1) obtain s1 s2 where
    1: "GetCellIsSolid d w a (InitialPath a b) = Some (False, s1)" and
    2: "GetCellIsSolid d w b s1 = Some (False, s2)"
    by (auto simp: EndpointSolid_def split: option.splits if_splits)
  from 1 have g1: "GetCell d w a (InitialPath a b) = Some s1" by (simp add: GetCellIsSolid_Some)
  from GetCell_Extends_ex[OF this] obtain new1 where
    e1: "Extends w {} (InitialPath a b) s1 new1" and "a \<in> set new1" by auto
  note f1 = Extends_frame[OF e1]
  note \<open>a \<in> set new1\<close>
  from Extends_new[OF e1 this] obtain c1 where
    c1: "m_Map s1 a = Some c1" "SearchFields c1 = (a, 0, 0, 0, NOLIST, None)" by auto
  from 2 have "GetCell d w b s1 = Some s2" by (simp add: GetCellIsSolid_Some)
  then obtain new2 where e2: "Extends w {} s1 s2 new2" by (rule GetCell_ExtendsE)
  note f2 = Extends_frame[OF e2]
  from Extends_old[OF e2 c1(1)] c1(2) obtain c2 where
    c2: "m_Map s2 a = Some c2" "SearchFields c2 = (a, 0, 0, 0, NOLIST, None)" by auto
  from g1 obtain d' where d: "d = Suc d'" by (cases d) auto
  let ?s3 = "s2\<lparr>m_PathStatus := CALCULATING, m_StepsLeft := n\<rparr>"
  have g3: "GetCell d w a ?s3 = Some ?s3" unfolding d using c2(1) by (simp add: GetCell_cached)
  let ?c = "c2\<lparr>m_Parent := None, m_G := 0, m_H := h, m_F := h + 0, m_Status := OPENLIST\<rparr>"
  let ?s = "?s3\<lparr>m_Map := (m_Map s2)(a \<mapsto> ?c), m_OpenList := [a]\<rparr>"
  let ?cc = "?c\<lparr>m_Status := CLOSEDLIST\<rparr>"
  let ?p = "?s\<lparr>StepOnceCalls := Suc (StepOnceCalls ?s), m_OpenList := [],
               m_Map := (m_Map ?s)(a \<mapsto> ?cc)\<rparr>"
  have dest: "m_Destination s2 = b" using f1 f2 by simp
  have loc: "m_Location c2 = a" "m_Status c2 = NOLIST"
    using c2(2) by (simp_all add: SearchFields_def)
  have open2: "m_OpenList s2 = []" using f1 f2 by simp
  have pts: "m_PathPoints s2 = []" using f1 f2 by simp
  have steps: "StepOnceCalls s2 = 0" using f1 f2 by simp
  have p: "ProcessCell a None 0 ?s3 = Some ?s"
    using c2(1) loc dest open2 assms(2)
    by (simp add: ProcessCell_def OpenListAdd_def CellWrite_def)
  have con: "Construct d w a b n = Some (True, ?s)"
    using 1 2 g3 p f1 by (simp add: Construct_def)
  have pop: "OpenListPop w (?s\<lparr>StepOnceCalls := Suc (StepOnceCalls ?s)\<rparr>) = Some (Some a, ?p)"
    by (simp add: OpenListPop_def pq_top_def CellWrite_def Let_def)
  have root: "PopulatePath a ?p = Some (?p\<lparr>m_PathPoints := [a]\<rparr>)"
    using PopulatePath_root[of ?p a ?cc] loc pts by simp
  have step: "StepOnce d w ?s =
             (if IsNextToDestination a b
              then Some (True, FinishCalculationAs PATH_FOUND (?p\<lparr>m_PathPoints := [a]\<rparr>))
              else (case ForEach OrthogonalOffsets
                           (\<lambda>off. ProcessIfWalkable d w (vadd a off) a 10) ?p of
                      None \<Rightarrow> None
                    | Some s2 \<Rightarrow>
                        (case ForEach DiagonalOffsets (ProcessDiagonal d w a a) s2 of
                           None \<Rightarrow> None
                         | Some s3 \<Rightarrow> Some (False, s3))))"
    unfolding StepOnce_def pop using root loc dest
    by (simp cong del: option.case_cong_weak)
  show ?thesis
    by (intro exI[of _ ?s] exI[of _ ?p] conjI, rule con, simp, simp, simp, simp add: steps,
        simp add: pts, simp add: CachedFields_def SearchFields_def loc, rule pop, simp,
        simp add: CachedFields_def SearchFields_def loc, rule step)
qed

lemma GetCell_plain:
  assumes "m_Map s a = None" "\<not> IsFenceAt w a" "\<not> IsWaterAt w a"
  shows "GetCell (Suc d) w a s =
     Some (s\<lparr>m_Map := (m_Map s)(a \<mapsto>
              new_cPathCell\<lparr>m_Location := a, m_IsSolid := WorldSolid w a, m_Status := NOLIST\<rparr>),
            OracleCalls := OracleCalls s @ [a]\<rparr>)"
proof (cases "GetBlock w a")
  case None
  with assms(1) show ?thesis
    by (simp add: GetCell_fresh IsSolid_invalid CellWrite_def WorldSolid_simps)
next
  case (Some bt)
  with assms(2,3) have "bt \<noteq> E_BLOCK_FENCE" "bt \<noteq> E_BLOCK_FENCE_GATE"
    "bt \<noteq> E_BLOCK_STATIONARY_WATER"
    by (auto simp: IsFenceAt_def IsWaterAt_def)
  with assms(1) Some show ?thesis
    by (simp add: GetCell_fresh IsSolid_plain CellWrite_def WorldSolid_simps)
qed

lemma EndpointSolid_plain:
  assumes "\<not> IsFenceAt w a" "\<not> IsWaterAt w a" "EndpointSolid d w a b = Some r"
  shows "r \<longleftrightarrow> WorldSolid w a \<or> WorldSolid w b"
proof -
  from assms(3) obtain b1 s1 where
    1: "GetCellIsSolid d w a (InitialPath a b) = Some (b1, s1)"
    by (auto simp: EndpointSolid_def split: option.splits)
  note b1 = EndpointSolid_start[OF 1]
  show ?thesis
  proof (cases b1)
    case True
    with assms(3) 1 b1 show ?thesis by (simp add: EndpointSolid_def)
  next
    case False
    with assms(3) 1 obtain s2 where 2: "GetCellIsSolid d w b s1 = Some (r, s2)"
      by (auto simp: EndpointSolid_def split: option.splits)
    from 1 have g1: "GetCell d w a (InitialPath a b) = Some s1"
      and c1: "CachedSolid a s1 = Some b1" by (simp_all add: GetCellIsSolid_Some)
    from 2 have g2: "GetCell d w b s1 = Some s2"
      and c2: "CachedSolid b s2 = Some r" by (simp_all add: GetCellIsSolid_Some)
    from g1 obtain d' where d: "d = Suc d'" by (cases d) auto
    have "m_Map (InitialPath a b) a = None" by simp
    from GetCell_plain[OF this assms(1,2), of d'] g1
    have s1: "m_Map s1 = [a \<mapsto>
        new_cPathCell\<lparr>m_Location := a, m_IsSolid := WorldSolid w a, m_Status := NOLIST\<rparr>]"
      unfolding d by auto
    have "r = WorldSolid w b"
    proof (cases "b = a")
      case True
      with s1 have "m_Map s1 b \<noteq> None" by simp
      from GetCell_hit[OF g2 this] c1 c2 True b1 show ?thesis by simp
    next
      case nb: False
      with s1 have "m_Map s1 b = None" by simp
      from GetCell_fresh_solid[OF g2 this] c2 show ?thesis by (auto simp: CachedSolid_def)
    qed
    with False b1 show ?thesis by simp
  qed
qed

lemma Construct_decides_on_endpoints:
  assumes "ColumnsBounded w K" and "K + 2 \<le> d" and "Length10 (vsub a b) = Some h"
  shows "\<exists>launched s.
     Construct d w a b n = Some (launched, s) \<and>
     EndpointSolid d w a b = Some (\<not> launched) \<and>
     (launched \<longleftrightarrow> m_PathStatus s = CALCULATING) \<and>
     (\<not> launched \<longleftrightarrow> m_PathStatus s = PATH_NOT_FOUND) \<and>
     (\<not> launched \<longrightarrow>
        Search d w a b n = Some s \<and> StepOnceCalls s = 0 \<and> m_OpenList s = []) \<and>
     (WorldSolid w a \<longrightarrow> \<not> launched) \<and>
     (\<not> IsFenceAt w a \<and> \<not> IsWaterAt w a \<longrightarrow>
        (launched \<longleftrightarrow> \<not> WorldSolid w a \<and> \<not> WorldSolid w b))"
proof -
  from EndpointSolid_total[OF assms(1,2)] obtain r where r: "EndpointSolid d w a b = Some r" by blast
  have ws: "WorldSolid w a \<longrightarrow> r"
  proof
    assume wa: "WorldSolid w a"
    from r obtain b1 s1 where
      1: "GetCellIsSolid d w a (InitialPath a b) = Some (b1, s1)"
      by (auto simp: EndpointSolid_def split: option.splits)
    from EndpointSolid_start[OF 1] wa have b1 by simp
    with r 1 show r by (simp add: EndpointSolid_def)
  qed
  have pl: "\<not> IsFenceAt w a \<and> \<not> IsWaterAt w a \<longrightarrow> (r \<longleftrightarrow> WorldSolid w a \<or> WorldSolid w b)"
    using EndpointSolid_plain[OF _ _ r] by blast
  show ?thesis
  proof (cases r)
    case True
    with r have "EndpointSolid d w a b = Some True" by simp
    from Construct_solid[OF this, of n] obtain s where
      "Construct d w a b n = Some (False, s)" "m_PathStatus s = PATH_NOT_FOUND"
      "StepOnceCalls s = 0" "m_OpenList s = []" "Search d w a b n = Some s" by blast
    with r True ws pl show ?thesis by (intro exI[of _ False] exI[of _ s]) simp
  next
    case False
    with r have "EndpointSolid d w a b = Some False" by simp
    from Construct_clear[OF this assms(3), of n] obtain s where
      "Construct d w a b n = Some (True, s)" "m_PathStatus s = CALCULATING" by blast
    with r False ws pl show ?thesis by (intro exI[of _ True] exI[of _ s]) simp
  qed
qed

subsection \<open>Admission of candidates\<close>

lemma OnlyCacheFilled_refl: "OnlyCacheFilled s s"
  by (auto simp: OnlyCacheFilled_def)

lemma OnlyCacheFilledD:
  assumes "OnlyCacheFilled s s'"
  shows "OtherFields s' = OtherFields s"
    "m_Map s l \<noteq> None \<Longrightarrow> m_Map s' l \<noteq> None"
    "m_Map s' l = Some c' \<Longrightarrow> SearchFields c' =
          (case m_Map s l of Some c \<Rightarrow> SearchFields c | None \<Rightarrow> (l, 0, 0, 0, NOLIST, None))"
  using assms unfolding OnlyCacheFilled_def by blast+

lemma OnlyCacheFilled_trans:
  assumes "OnlyCacheFilled s s1" "OnlyCacheFilled s1 s2"
  shows "OnlyCacheFilled s s2"
proof -
  have 1: "OtherFields s2 = OtherFields s"
    using assms by (simp add: OnlyCacheFilled_def)
  have 2: "m_Map s2 l \<noteq> None" if "m_Map s l \<noteq> None" for l
    using OnlyCacheFilledD(2)[OF assms(2) OnlyCacheFilledD(2)[OF assms(1) that]] .
  have 3: "SearchFields c' =
          (case m_Map s l of Some c \<Rightarrow> SearchFields c | None \<Rightarrow> (l, 0, 0, 0, NOLIST, None))"
    if c': "m_Map s2 l = Some c'" for l c'
  proof (cases "m_Map s1 l")
    case None
    with OnlyCacheFilledD(2)[OF assms(1), of l] have "m_Map s l = None"
      by (cases "m_Map s l") auto
    with OnlyCacheFilledD(3)[OF assms(2) c'] None show ?thesis by simp
  next
    case (Some c1)
    with OnlyCacheFilledD(3)[OF assms(2) c'] have "SearchFields c' = SearchFields c1"
      by simp
    moreover from OnlyCacheFilledD(3)[OF assms(1) Some] have "SearchFields c1 =
          (case m_Map s l of Some c \<Rightarrow> SearchFields c | None \<Rightarrow> (l, 0, 0, 0, NOLIST, None))" .
    ultimately show ?thesis by simp
  qed
  show ?thesis unfolding OnlyCacheFilled_def using 1 2 3 by blast
qed

lemma Extends_OnlyCacheFilled:
  assumes "Extends w S s s' new"
  shows "OnlyCacheFilled s s'"
proof -
  have 1: "OtherFields s' = OtherFields s" using assms by (rule Extends_frame)
  have 2: "m_Map s' l \<noteq> None" if "m_Map s l \<noteq> None" for l
    using Extends_distinct(3)[OF assms] that by auto
  have 3: "SearchFields c' =
          (case m_Map s l of Some c \<Rightarrow> SearchFields c | None \<Rightarrow> (l, 0, 0, 0, NOLIST, None))"
    if c': "m_Map s' l = Some c'" for l c'
  proof (cases "m_Map s l")
    case None
    from c' have "l \<in> dom (m_Map s')" by auto
    with None Extends_distinct(3)[OF assms] have "l \<in> set new" by auto
    from Extends_new[OF assms this] c' None show ?thesis by auto
  next
    case (Some c)
    from Extends_old[OF assms Some] c' Some show ?thesis by auto
  qed
  show ?thesis unfolding OnlyCacheFilled_def using 1 2 3 by blast
qed

lemma GetCellIsSolid_OnlyCacheFilled:
  assumes "GetCellIsSolid d w a s = Some (b, s')"
  shows "OnlyCacheFilled s s'"
proof -
  from assms have "GetCell d w a s = Some s'" by (simp add: GetCellIsSolid_Some)
  then obtain new where "Extends w {} s s' new" by (rule GetCell_ExtendsE)
  then show ?thesis by (rule Extends_OnlyCacheFilled)
qed

lemma ProcessIfWalkable_reads:
  assumes "ProcessIfWalkable d w l par cost s = Some s'" and "\<not> OnlyCacheFilled s s'"
  shows "\<exists>s1 s2 s3.
     GetCellIsSolid d w l s = Some (False, s1) \<and>
     GetCellIsSolid d w (vadd l (0, - 1, 0)) s1 = Some (True, s2) \<and>
     GetCellIsSolid d w (vadd l (0, 1, 0)) s2 = Some (False, s3) \<and>
     ProcessCell l (Some par) cost s3 = Some s'"
proof -
  from assms(1) obtain b1 s1 where 1: "GetCellIsSolid d w l s = Some (b1, s1)"
    by (auto simp: ProcessIfWalkable_def split: option.splits)
  note o1 = GetCellIsSolid_OnlyCacheFilled[OF 1]
  have nb1: "\<not> b1"
  proof
    assume b1
    with assms(1) 1 have "s' = s1" by (simp add: ProcessIfWalkable_def)
    with o1 assms(2) show False by simp
  qed
  with assms(1) 1 obtain b2 s2 where
    2: "GetCellIsSolid d w (vadd l (0, - 1, 0)) s1 = Some (b2, s2)"
    by (auto simp: ProcessIfWalkable_def split: option.splits)
  note o2 = OnlyCacheFilled_trans[OF o1 GetCellIsSolid_OnlyCacheFilled[OF 2]]
  have b2: b2
  proof (rule ccontr)
    assume "\<not> b2"
    with assms(1) 1 2 nb1 have "s' = s2" by (simp add: ProcessIfWalkable_def)
    with o2 assms(2) show False by simp
  qed
  with assms(1) 1 2 nb1 obtain b3 s3 where
    3: "GetCellIsSolid d w (vadd l (0, 1, 0)) s2 = Some (b3, s3)"
    by (auto simp: ProcessIfWalkable_def split: option.splits)
  note o3 = OnlyCacheFilled_trans[OF o2 GetCellIsSolid_OnlyCacheFilled[OF 3]]
  have nb3: "\<not> b3"
  proof
    assume b3
    with assms(1) 1 2 3 nb1 b2 have "s' = s3" by (simp add: ProcessIfWalkable_def)
    with o3 assms(2) show False by simp
  qed
  from assms(1) 1 2 3 nb1 b2 nb3 have "ProcessCell l (Some par) cost s3 = Some s'"
    by (simp add: ProcessIfWalkable_def)
  with 1 2 3 nb1 b2 nb3 show ?thesis
    by (intro exI[of _ s1] exI[of _ s2] exI[of _ s3]) simp
qed

lemma ProcessIfWalkable_rejects:
  assumes "ProcessIfWalkable d w l par cost s = Some s'"
  shows "OnlyCacheFilled s s' \<or>
    (\<exists>s3. OnlyCacheFilled s s3 \<and> ProcessCell l (Some par) cost s3 = Some s')"
proof (cases "OnlyCacheFilled s s'")
  case True
  then show ?thesis ..
next
  case False
  from ProcessIfWalkable_reads[OF assms False] obtain s1 s2 s3 where
    1: "GetCellIsSolid d w l s = Some (False, s1)" and
    2: "GetCellIsSolid d w (vadd l (0, - 1, 0)) s1 = Some (True, s2)" and
    3: "GetCellIsSolid d w (vadd l (0, 1, 0)) s2 = Some (False, s3)" and
    4: "ProcessCell l (Some par) cost s3 = Some s'" by blast
  have "OnlyCacheFilled s s3"
    using GetCellIsSolid_OnlyCacheFilled[OF 1] GetCellIsSolid_OnlyCacheFilled[OF 2]
      GetCellIsSolid_OnlyCacheFilled[OF 3] by (blast intro: OnlyCacheFilled_trans)
  with 4 show ?thesis by blast
qed

lemma ProcessDiagonal_reads:
  assumes "ProcessDiagonal d w cur loc (x, z) s = Some s'" and "\<not> OnlyCacheFilled s s'"
  shows "\<exists>s1 s2 s3 s4.
     GetCellIsSolid d w (vadd loc (x, 0, 0)) s = Some (False, s1) \<and>
     GetCellIsSolid d w (vadd loc (0, 0, z)) s1 = Some (False, s2) \<and>
     GetCellIsSolid d w (vadd loc (x, - 1, 0)) s2 = Some (True, s3) \<and>
     GetCellIsSolid d w (vadd loc (0, - 1, z)) s3 = Some (True, s4) \<and>
     ProcessIfWalkable d w (vadd loc (x, 0, z)) cur 14 s4 = Some s'"
proof -
  from assms(1) obtain b1 s1 where 1: "GetCellIsSolid d w (vadd loc (x, 0, 0)) s = Some (b1, s1)"
    by (auto simp: ProcessDiagonal_def split: option.splits)
  note o1 = GetCellIsSolid_OnlyCacheFilled[OF 1]
  have nb1: "\<not> b1"
  proof
    assume b1
    with assms(1) 1 have "s' = s1" by (simp add: ProcessDiagonal_def)
    with o1 assms(2) show False by simp
  qed
  with assms(1) 1 obtain b2 s2 where
    2: "GetCellIsSolid d w (vadd loc (0, 0, z)) s1 = Some (b2, s2)"
    by (auto simp: ProcessDiagonal_def split: option.splits)
  note o2 = OnlyCacheFilled_trans[OF o1 GetCellIsSolid_OnlyCacheFilled[OF 2]]
  have nb2: "\<not> b2"
  proof
    assume b2
    with assms(1) 1 2 nb1 have "s' = s2" by (simp add: ProcessDiagonal_def)
    with o2 assms(2) show False by simp
  qed
  with assms(1) 1 2 nb1 obtain b3 s3 where
    3: "GetCellIsSolid d w (vadd loc (x, - 1, 0)) s2 = Some (b3, s3)"
    by (auto simp: ProcessDiagonal_def split: option.splits)
  note o3 = OnlyCacheFilled_trans[OF o2 GetCellIsSolid_OnlyCacheFilled[OF 3]]
  have b3: b3
  proof (rule ccontr)
    assume "\<not> b3"
    with assms(1) 1 2 3 nb1 nb2 have "s' = s3" by (simp add: ProcessDiagonal_def)
    with o3 assms(2) show False by simp
  qed
  with assms(1) 1 2 3 nb1 nb2 obtain b4 s4 where
    4: "GetCellIsSolid d w (vadd loc (0, - 1, z)) s3 = Some (b4, s4)"
    by (auto simp: ProcessDiagonal_def split: option.splits)
  note o4 = OnlyCacheFilled_trans[OF o3 GetCellIsSolid_OnlyCacheFilled[OF 4]]
  have b4: b4
  proof (rule ccontr)
    assume "\<not> b4"
    with assms(1) 1 2 3 4 nb1 nb2 b3 have "s' = s4" by (simp add: ProcessDiagonal_def)
    with o4 assms(2) show False by simp
  qed
  from assms(1) 1 2 3 4 nb1 nb2 b3 b4
  have "ProcessIfWalkable d w (vadd loc (x, 0, z)) cur 14 s4 = Some s'"
    by (simp add: ProcessDiagonal_def)
  with 1 2 3 4 nb1 nb2 b3 b4 show ?thesis
    by (intro exI[of _ s1] exI[of _ s2] exI[of _ s3] exI[of _ s4]) simp
qed

subsection \<open>The loop of Step\<close>

lemma Params_updates [simp]:
  "Params (s\<lparr>m_Map := m\<rparr>) = Params s"
  "Params (s\<lparr>m_OpenList := ol\<rparr>) = Params s"
  "Params (s\<lparr>m_PathPoints := pp\<rparr>) = Params s"
  "Params (s\<lparr>m_PathStatus := st\<rparr>) = Params s"
  "Params (s\<lparr>OracleCalls := oc\<rparr>) = Params s"
  "Params (s\<lparr>StepOnceCalls := k\<rparr>) = Params s"
  by (simp_all add: Params_def)

lemma Params_OtherFields: "OtherFields s' = OtherFields s \<Longrightarrow> Params s' = Params s"
  by (simp add: OtherFields_def Params_def)

lemma ForEach_invariant:
  assumes "ForEach xs f s = Some s'" "I s"
    and "\<And>x t t'. x \<in> set xs \<Longrightarrow> f x t = Some t' \<Longrightarrow> I t \<Longrightarrow> I t'"
  shows "I s'"
  using assms
proof (induction xs arbitrary: s)
  case Nil
  then show ?case by simp
next
  case (Cons x xs)
  from Cons.prems(1) obtain s1 where 1: "f x s = Some s1" and 2: "ForEach xs f s1 = Some s'"
    by (auto split: option.splits)
  from Cons.prems(3)[OF _ 1 Cons.prems(2)] have i1: "I s1" by simp
  show ?case
  proof (rule Cons.IH[OF 2 i1])
    fix y t t'
    assume "y \<in> set xs" "f y t = Some t'" "I t"
    then show "I t'" using Cons.prems(3)[of y t t'] by simp
  qed
qed

lemma ProcessCell_Params:
  assumes "ProcessCell a p g s = Some s'"
  shows "Params s' = Params s"
  using assms
  by (auto simp: ProcessCell_def OpenListAdd_def CellWrite_def Let_def
      split: option.splits if_splits)

lemma GetCellIsSolid_Params:
  assumes "GetCellIsSolid d w a s = Some (b, s')"
  shows "Params s' = Params s"
  using OnlyCacheFilledD(1)[OF GetCellIsSolid_OnlyCacheFilled[OF assms]]
  by (rule Params_OtherFields)

lemma ProcessIfWalkable_Params:
  assumes "ProcessIfWalkable d w l par cost s = Some s'"
  shows "Params s' = Params s"
proof -
  from ProcessIfWalkable_rejects[OF assms] show ?thesis
  proof
    assume "OnlyCacheFilled s s'"
    from OnlyCacheFilledD(1)[OF this] show ?thesis by (rule Params_OtherFields)
  next
    assume "\<exists>s3. OnlyCacheFilled s s3 \<and> ProcessCell l (Some par) cost s3 = Some s'"
    then obtain s3 where 1: "OnlyCacheFilled s s3" and 2: "ProcessCell l (Some par) cost s3 = Some s'"
      by blast
    from ProcessCell_Params[OF 2] Params_OtherFields[OF OnlyCacheFilledD(1)[OF 1]]
    show ?thesis by simp
  qed
qed

lemma ProcessDiagonal_Params:
  assumes "ProcessDiagonal d w cur loc xz s = Some s'"
  shows "Params s' = Params s"
proof (cases "OnlyCacheFilled s s'")
  case True
  from OnlyCacheFilledD(1)[OF this] show ?thesis by (rule Params_OtherFields)
next
  case False
  obtain x z where xz: "xz = (x, z)" by (cases xz)
  from ProcessDiagonal_reads[OF assms[unfolded xz] False]
  obtain s1 s2 s3 s4 where
    1: "GetCellIsSolid d w (vadd loc (x, 0, 0)) s = Some (False, s1)" and
    2: "GetCellIsSolid d w (vadd loc (0, 0, z)) s1 = Some (False, s2)" and
    3: "GetCellIsSolid d w (vadd loc (x, - 1, 0)) s2 = Some (True, s3)" and
    4: "GetCellIsSolid d w (vadd loc (0, - 1, z)) s3 = Some (True, s4)" and
    5: "ProcessIfWalkable d w (vadd loc (x, 0, z)) cur 14 s4 = Some s'" by blast
  from GetCellIsSolid_Params[OF 1] GetCellIsSolid_Params[OF 2] GetCellIsSolid_Params[OF 3]
    GetCellIsSolid_Params[OF 4] ProcessIfWalkable_Params[OF 5]
  show ?thesis by simp
qed

lemma OpenListPop_Params:
  assumes "OpenListPop w s = Some (r, s')"
  shows "Params s' = Params s"
  using assms
  by (auto simp: OpenListPop_def CellWrite_def Let_def split: list.splits option.splits if_splits)

lemma PopulatePath_Params:
  assumes "PopulatePath cur s = Some s'"
  shows "Params s' = Params s"
  using assms
proof (induction rule: PopulatePath.raw_induct[rotated 1, consumes 1])
  case (1 PopulatePath' CurrentCell s s')
  note eq = "1.hyps"
  from eq obtain c where c: "m_Map s CurrentCell = Some c"
    by (auto split: option.splits)
  show ?case
  proof (cases "m_Parent c")
    case None
    with eq c show ?thesis by auto
  next
    case (Some p)
    with eq c have
      "PopulatePath' p (s\<lparr>m_PathPoints := m_PathPoints s @ [m_Location c]\<rparr>) = Some s'"
      by simp
    from "1.IH"[OF this] show ?thesis by simp
  qed
qed

lemma FinishCalculationAs_Params [simp]:
  "Params (FinishCalculationAs st s) = Params s"
  by (simp add: FinishCalculationAs_def FinishCalculation_def)

lemma StepOnce_Params:
  assumes "StepOnce d w s = Some (b, s')"
  shows "Params s' = Params s"
proof -
  let ?s0 = "s\<lparr>StepOnceCalls := Suc (StepOnceCalls s)\<rparr>"
  from assms obtain r s1 where pop: "OpenListPop w ?s0 = Some (r, s1)"
    by (auto simp: StepOnce_def split: option.splits)
  from OpenListPop_Params[OF pop] have p1: "Params s1 = Params s" by simp
  show ?thesis
  proof (cases r)
    case None
    with assms pop p1 show ?thesis by (auto simp: StepOnce_def)
  next
    case (Some cur)
    with assms pop obtain c where c: "m_Map s1 cur = Some c"
      by (auto simp: StepOnce_def split: option.splits)
    show ?thesis
    proof (cases "IsNextToDestination (m_Location c) (m_Destination s1)")
      case True
      with assms pop Some c obtain s2 where "PopulatePath cur s1 = Some s2"
        "s' = FinishCalculationAs PATH_FOUND s2"
        by (auto simp: StepOnce_def split: option.splits)
      with PopulatePath_Params[OF this(1)] p1 show ?thesis by simp
    next
      case False
      with assms pop Some c obtain s2 where
        o: "ForEach OrthogonalOffsets
              (\<lambda>off. ProcessIfWalkable d w (vadd (m_Location c) off) cur 10) s1 = Some s2" and
        dg: "ForEach DiagonalOffsets (ProcessDiagonal d w cur (m_Location c)) s2 = Some s'"
        by (auto simp: StepOnce_def split: option.splits)
      have "Params s2 = Params s"
        by (rule ForEach_invariant[OF o, where I = "\<lambda>t. Params t = Params s"])
           (simp_all add: p1 ProcessIfWalkable_Params)
      then show ?thesis
        by (intro ForEach_invariant[OF dg, where I = "\<lambda>t. Params t = Params s"])
           (simp_all add: ProcessDiagonal_Params)
    qed
  qed
qed

lemma StepOnce_True:
  assumes "StepOnce d w s = Some (True, s')"
  shows "m_PathStatus s' = PATH_FOUND \<or> m_PathStatus s' = PATH_NOT_FOUND \<and> m_OpenList s = []"
proof -
  let ?s0 = "s\<lparr>StepOnceCalls := Suc (StepOnceCalls s)\<rparr>"
  from assms obtain r s1 where pop: "OpenListPop w ?s0 = Some (r, s1)"
    by (auto simp: StepOnce_def split: option.splits)
  show ?thesis
  proof (cases r)
    case None
    with pop have "m_OpenList s = []"
      by (auto simp: OpenListPop_def Let_def split: list.splits option.splits if_splits)
    with assms pop None show ?thesis
      by (auto simp: StepOnce_def FinishCalculationAs_def FinishCalculation_def)
  next
    case (Some cur)
    with assms pop show ?thesis
      by (auto simp: StepOnce_def FinishCalculationAs_def FinishCalculation_def
          split: option.splits if_splits)
  qed
qed

lemma StepOnceTimes_Params:
  "StepOnceTimes n d w s = Some s' \<Longrightarrow> Params s' = Params s"
proof (induction n arbitrary: s)
  case 0
  then show ?case by simp
next
  case (Suc n)
  from Suc.prems obtain s1 where 1: "StepOnce d w s = Some (False, s1)"
    and 2: "StepOnceTimes n d w s1 = Some s'"
    by (auto split: option.splits bool.splits)
  from Suc.IH[OF 2] StepOnce_Params[OF 1] show ?case by simp
qed

lemma StepLoop_zero:
  assumes "m_StepsLeft s = 0" "1 \<le> i"
  shows "StepLoop d w i s =
     (case StepOnce d w s of
        None \<Rightarrow> None
      | Some (True, s1) \<Rightarrow> Some s1
      | Some (False, s1) \<Rightarrow> if INT_MAX \<le> i then None else StepLoop d w (i + 1) s1)"
  using assms
  by (subst StepLoop.simps) (simp add: CALCULATIONS_PER_STEP_def INT_MIN_def INT_MAX_def)

lemma StepLoop_zero_run:
  "m_StepsLeft s = 0 \<Longrightarrow> 1 \<le> i \<Longrightarrow> StepOnceTimes n d w s = Some sn \<Longrightarrow>
   i + int n \<le> INT_MAX \<Longrightarrow> StepLoop d w i s = StepLoop d w (i + int n) sn"
proof (induction n arbitrary: s i)
  case 0
  then show ?case by simp
next
  case (Suc n)
  from Suc.prems(3) obtain s1 where 1: "StepOnce d w s = Some (False, s1)"
    and 2: "StepOnceTimes n d w s1 = Some sn"
    by (auto split: option.splits bool.splits)
  from StepOnce_Params[OF 1] Suc.prems(1) have z: "m_StepsLeft s1 = 0"
    by (simp add: Params_def)
  from Suc.prems(4) have lt: "\<not> INT_MAX \<le> i" by simp
  have "StepLoop d w i s = StepLoop d w (i + 1) s1"
    by (subst StepLoop_zero[OF Suc.prems(1,2)]) (simp add: 1 lt)
  also have "\<dots> = StepLoop d w (i + 1 + int n) sn"
    using z 2 Suc.prems(2,4) by (intro Suc.IH) simp_all
  finally show ?case by (simp add: add.assoc)
qed

lemma StepLoop_zero_returns:
  "m_StepsLeft s = 0 \<Longrightarrow> 1 \<le> i \<Longrightarrow> StepLoop d w i s = Some s' \<Longrightarrow> i \<le> INT_MAX \<Longrightarrow>
   \<exists>n sn. i + int n \<le> INT_MAX \<and> StepOnceTimes n d w s = Some sn \<and>
          StepOnce d w sn = Some (True, s')"
proof (induction d w i s rule: StepLoop.induct)
  case (1 d w i s)
  note unroll = StepLoop_zero[OF "1.prems"(1,2), of d w]
  from "1.prems"(3) unroll obtain b s1 where so: "StepOnce d w s = Some (b, s1)"
    by (auto split: option.splits)
  show ?case
  proof (cases b)
    case True
    with "1.prems"(3) unroll so have "s1 = s'" by simp
    with so True have "StepOnce d w s = Some (True, s')" by simp
    then show ?thesis using "1.prems"(4) by (intro exI[of _ 0] exI[of _ s]) simp
  next
    case False
    with "1.prems"(3) unroll so have lt: "\<not> INT_MAX \<le> i" and
      rec: "StepLoop d w (i + 1) s1 = Some s'"
      by (auto split: if_splits)
    from StepOnce_Params[OF so] "1.prems"(1) have z: "m_StepsLeft s1 = 0"
      by (simp add: Params_def)
    have nb: "\<not> (CALCULATIONS_PER_STEP * m_StepsLeft s < INT_MIN \<or>
            INT_MAX < CALCULATIONS_PER_STEP * m_StepsLeft s)"
      "i \<noteq> CALCULATIONS_PER_STEP * m_StepsLeft s"
      using "1.prems"(1,2) by (simp_all add: CALCULATIONS_PER_STEP_def INT_MIN_def INT_MAX_def)
    from so False have so': "StepOnce d w s = Some (False, s1)" by simp
    have "1 \<le> i + 1" "i + 1 \<le> INT_MAX" using "1.prems"(2) lt by simp_all
    from "1.IH"[OF nb so' refl refl lt z this(1) rec this(2)]
    obtain n sn where "i + 1 + int n \<le> INT_MAX" "StepOnceTimes n d w s1 = Some sn"
      "StepOnce d w sn = Some (True, s')" by auto
    with so False show ?thesis
      by (intro exI[of _ "Suc n"] exI[of _ sn]) simp
  qed
qed

lemma scenario_constants:
  "E_BLOCK_AIR \<noteq> E_BLOCK_FENCE" "E_BLOCK_AIR \<noteq> E_BLOCK_FENCE_GATE"
  "E_BLOCK_AIR \<noteq> E_BLOCK_STATIONARY_WATER"
  "E_BLOCK_STONE \<noteq> E_BLOCK_FENCE" "E_BLOCK_STONE \<noteq> E_BLOCK_FENCE_GATE"
  "E_BLOCK_STONE \<noteq> E_BLOCK_STATIONARY_WATER"
  by (simp_all add: E_BLOCK_AIR_def E_BLOCK_STONE_def E_BLOCK_FENCE_def E_BLOCK_FENCE_GATE_def
      E_BLOCK_STATIONARY_WATER_def)

lemma FlatFloor_ColumnsBounded: "ColumnsBounded FlatFloor 1"
  unfolding ColumnsBounded_def IsFenceAt_def IsWaterAt_def
  by (auto simp: FlatFloor_def scenario_constants split: prod.splits)

subsection \<open>The integer square root\<close>

lemma isqrt_correct:
  "0 \<le> n \<Longrightarrow> 0 \<le> isqrt n \<and> isqrt n * isqrt n \<le> n \<and> n < (isqrt n + 1) * (isqrt n + 1)"
proof (induction n rule: isqrt.induct)
  case (1 n)
  show ?case
  proof (cases "n < 4")
    case True
    with "1.prems" show ?thesis by (simp add: isqrt.simps[of n])
  next
    case False
    define m where "m = n div 4"
    define r0 where "r0 = isqrt m"
    from False "1.prems" have m0: "0 \<le> m" by (simp add: m_def)
    from "1.IH"[OF False] m0 have ih: "0 \<le> r0" "r0 * r0 \<le> m" "m < (r0 + 1) * (r0 + 1)"
      by (simp_all add: m_def r0_def)
    have nb: "4 * m \<le> n" "n < 4 * m + 4" by (simp_all add: m_def)
    have sq: "(2 * r0) * (2 * r0) = 4 * (r0 * r0)"
      "(2 * r0 + 1 + 1) * (2 * r0 + 1 + 1) = 4 * ((r0 + 1) * (r0 + 1))"
      by (simp_all add: algebra_simps)
    from ih nb sq have lo: "(2 * r0) * (2 * r0) \<le> n"
      and hi: "n < (2 * r0 + 1 + 1) * (2 * r0 + 1 + 1)" by linarith+
    have e: "isqrt n = (if (2 * r0 + 1) * (2 * r0 + 1) \<le> n then 2 * r0 + 1 else 2 * r0)"
      using False by (simp add: isqrt.simps[of n] Let_def m_def r0_def)
    show ?thesis
    proof (cases "(2 * r0 + 1) * (2 * r0 + 1) \<le> n")
      case True
      with e have "isqrt n = 2 * r0 + 1" by simp
      with True hi ih(1) show ?thesis by simp
    next
      case False
      with e have "isqrt n = 2 * r0" by simp
      with False lo ih(1) show ?thesis by simp
    qed
  qed
qed

lemma Length10_bounds:
  assumes "Length10 (x, y, z) = Some h"
  shows "0 \<le> h \<and> h * h \<le> 100 * (x * x + y * y + z * z) \<and>
         100 * (x * x + y * y + z * z) < (h + 1) * (h + 1) \<and>
         x * x + y * y + z * z \<le> INT_MAX"
proof -
  from assms have le: "x * x + y * y + z * z \<le> INT_MAX"
    and h: "h = isqrt (100 * (x * x + y * y + z * z))"
    by (auto split: if_splits)
  have "0 \<le> 100 * (x * x + y * y + z * z)" by simp
  from isqrt_correct[OF this] h le show ?thesis by simp
qed

subsection \<open>Relaxation of an open cell\<close>

lemma ProcessCell_relaxes:
  assumes "m_Map s q = Some c" "m_Status c = OPENLIST" "m_Map s p = Some pc"
  shows "ProcessCell q (Some p) cost s =
     Some (if m_G pc + cost < m_G c
           then s\<lparr>m_Map := (m_Map s)(q \<mapsto>
                  c\<lparr>m_G := m_G pc + cost, m_H := m_F c + (m_G pc + cost), m_Parent := Some p\<rparr>)\<rparr>
           else s)"
  using assms by (simp add: ProcessCell_def Let_def)

subsection \<open>Diagonal moves and the corners they pass\<close>

lemma Advances_refl: "Advances s s"
  by (simp add: Advances_def)

lemma Advances_cached:
  assumes "Advances s s'" "CachedSolid l s \<noteq> None"
  shows "CachedSolid l s' \<noteq> None"
  using assms unfolding Advances_def by blast

lemma Advances_settled:
  assumes "Advances s s'" "Settled s l"
  shows "CachedSolid l s' = CachedSolid l s"
  using assms unfolding Advances_def by blast

lemma Settled_mono:
  assumes "Advances s s'" "Settled s l"
  shows "Settled s' l"
proof -
  from assms have e: "CachedSolid l s' = CachedSolid l s" by (rule Advances_settled)
  have d: "\<And>k. CachedSolid k s \<noteq> None \<Longrightarrow> CachedSolid k s' \<noteq> None"
    by (rule Advances_cached[OF assms(1)])
  from assms(2) consider "CachedSolid l s = Some True"
    | "CachedSolid l s \<noteq> None" "CachedSolid (vadd l (0, - 1, 0)) s \<noteq> None"
      "CachedSolid (vadd l (0, 1, 0)) s \<noteq> None"
    unfolding Settled_def by fast
  then show ?thesis
  proof cases
    case 1
    with e show ?thesis by (simp add: Settled_def)
  next
    case 2
    from d[OF 2(2)] d[OF 2(3)] 2(1) e show ?thesis by (simp add: Settled_def)
  qed
qed

lemma Advances_trans:
  assumes "Advances s s1" "Advances s1 s2"
  shows "Advances s s2"
  unfolding Advances_def
proof (intro conjI allI impI)
  fix l assume "CachedSolid l s \<noteq> None"
  with assms(1) have "CachedSolid l s1 \<noteq> None" by (rule Advances_cached)
  with assms(2) show "CachedSolid l s2 \<noteq> None" by (rule Advances_cached)
next
  fix l assume st: "Settled s l"
  from assms(2) Settled_mono[OF assms(1) st] have "CachedSolid l s2 = CachedSolid l s1"
    by (rule Advances_settled)
  moreover from assms(1) st have "CachedSolid l s1 = CachedSolid l s"
    by (rule Advances_settled)
  ultimately show "CachedSolid l s2 = CachedSolid l s" by simp
qed

lemma Settled_solid: "CachedSolid l s = Some True \<Longrightarrow> Settled s l"
  by (simp add: Settled_def)

lemma StableCorner_mono:
  assumes a: "Advances s s'" and c: "StableCorner s p x z"
  shows "StableCorner s' p x z"
proof -
  from c have f: "CachedSolid (vadd p (x, 0, 0)) s = Some False"
    "CachedSolid (vadd p (0, 0, z)) s = Some False"
    "CachedSolid (vadd p (x, - 1, 0)) s = Some True"
    "CachedSolid (vadd p (0, - 1, z)) s = Some True"
    and st: "Settled s (vadd p (x, 0, 0))" "Settled s (vadd p (0, 0, z))"
    by (simp_all add: StableCorner_def CornerClear_def)
  from Advances_settled[OF a st(1)] Advances_settled[OF a st(2)]
    Advances_settled[OF a Settled_solid[OF f(3)]] Advances_settled[OF a Settled_solid[OF f(4)]]
    f Settled_mono[OF a st(1)] Settled_mono[OF a st(2)]
  show ?thesis by (simp add: StableCorner_def CornerClear_def)
qed

lemma Extends_Advances:
  assumes e: "Extends w {} s s' new"
  shows "Advances s s'"
  unfolding Advances_def
proof (intro conjI allI impI)
  fix l assume "CachedSolid l s \<noteq> None"
  then obtain c where "m_Map s l = Some c" by (auto simp: CachedSolid_def)
  from Extends_old[OF e this] show "CachedSolid l s' \<noteq> None" by (auto simp: CachedSolid_def)
next
  fix l assume st: "Settled s l"
  then obtain c where c: "m_Map s l = Some c" by (auto simp: Settled_def CachedSolid_def)
  from Extends_old[OF e c] obtain c' where c': "m_Map s' l = Some c'"
    and ch: "m_IsSolid c' \<noteq> m_IsSolid c \<longrightarrow>
       m_IsSolid c' \<and> (vadd l (0, - 1, 0) \<in> set new \<or> vadd l (0, 1, 0) \<in> set new)"
    by auto
  have "m_IsSolid c' = m_IsSolid c"
  proof (rule ccontr)
    assume n: "m_IsSolid c' \<noteq> m_IsSolid c"
    with ch have t: "m_IsSolid c'" and
      src: "vadd l (0, - 1, 0) \<in> set new \<or> vadd l (0, 1, 0) \<in> set new" by auto
    from n t have "\<not> m_IsSolid c" by simp
    with st c have "m_Map s (vadd l (0, - 1, 0)) \<noteq> None" "m_Map s (vadd l (0, 1, 0)) \<noteq> None"
      by (auto simp: Settled_def CachedSolid_def)
    then have "vadd l (0, - 1, 0) \<in> dom (m_Map s)" "vadd l (0, 1, 0) \<in> dom (m_Map s)"
      by auto
    with src Extends_distinct(2)[OF e] show False by auto
  qed
  with c c' show "CachedSolid l s' = CachedSolid l s" by (simp add: CachedSolid_def)
qed

lemma Fills_refl: "Fills s s"
  by (simp add: Fills_def OnlyCacheFilled_refl Advances_refl)

lemma Fills_trans: "Fills s s1 \<Longrightarrow> Fills s1 s2 \<Longrightarrow> Fills s s2"
  unfolding Fills_def using OnlyCacheFilled_trans Advances_trans by blast

lemma FillsD: "Fills s s' \<Longrightarrow> OnlyCacheFilled s s'" "Fills s s' \<Longrightarrow> Advances s s'"
  by (simp_all add: Fills_def)

lemma GetCell_Fills:
  assumes "GetCell d w a s = Some s'"
  shows "Fills s s'"
proof -
  from GetCell_ExtendsE[OF assms] obtain new where e: "Extends w {} s s' new" by blast
  from Extends_OnlyCacheFilled[OF e] Extends_Advances[OF e] show ?thesis
    by (simp add: Fills_def)
qed

lemma GetCellIsSolid_Fills:
  assumes "GetCellIsSolid d w a s = Some (b, s')"
  shows "Fills s s'" "CachedSolid a s' = Some b"
proof -
  from assms have g: "GetCell d w a s = Some s'" and "CachedSolid a s' = Some b"
    by (simp_all add: GetCellIsSolid_Some)
  then show "CachedSolid a s' = Some b" by simp
  from g show "Fills s s'" by (rule GetCell_Fills)
qed

lemma flags_eq_Advances:
  assumes "\<And>l. CachedSolid l s' = CachedSolid l s"
  shows "Advances s s'"
  by (simp add: Advances_def assms)

lemma flags_eq_StableCorner:
  assumes "\<And>l. CachedSolid l s' = CachedSolid l s"
  shows "StableCorner s' p x z = StableCorner s p x z"
  by (simp add: StableCorner_def CornerClear_def Settled_def assms)

lemma ProcessCell_effect:
  assumes "ProcessCell q caller g s = Some s'"
  shows "CachedSolid l s' = CachedSolid l s" "m_PathPoints s' = m_PathPoints s"
    "m_Map s' l = Some c' \<Longrightarrow>
       \<exists>c. m_Map s l = Some c \<and> m_Location c' = m_Location c \<and>
           (m_Parent c' = m_Parent c \<or> l = q \<and> m_Parent c' = caller)"
  using assms
  by (auto simp: ProcessCell_def OpenListAdd_def CellWrite_def CachedSolid_def Let_def
           split: option.splits if_splits)

lemma OpenListPop_effect:
  assumes "OpenListPop w s = Some (r, s')"
  shows "CachedSolid l s' = CachedSolid l s" "m_PathPoints s' = m_PathPoints s"
    "m_Map s' l = Some c' \<Longrightarrow>
       \<exists>c. m_Map s l = Some c \<and> m_Location c' = m_Location c \<and> m_Parent c' = m_Parent c"
  using assms
  by (auto simp: OpenListPop_def CellWrite_def CachedSolid_def Let_def
           split: option.splits if_splits list.splits)

lemma vadd_vadd: "vadd (vadd l (a, b, c)) (a', b', c') = vadd l (a + a', b + b', c + c')"
  by (cases l) simp

lemma vadd_cancel: "vadd l a = vadd l b \<longleftrightarrow> a = b"
  by (cases l; cases a; cases b) auto

lemma SearchInvD:
  assumes "SearchInv s"
  shows "m_Map s l = Some c \<Longrightarrow> m_Location c = l" "m_PathPoints s = []"
    "m_Map s q = Some c \<Longrightarrow> m_Parent c = Some p \<Longrightarrow> IsDiagonal x z \<Longrightarrow> q = vadd p (x, 0, z) \<Longrightarrow>
       StableCorner s p x z"
  using assms unfolding SearchInv_def DiagInv_def by blast+

lemma SearchInvI:
  assumes "\<And>l c. m_Map s l = Some c \<Longrightarrow> m_Location c = l" "m_PathPoints s = []"
    "\<And>c p x z. m_Map s (vadd p (x, 0, z)) = Some c \<Longrightarrow> m_Parent c = Some p \<Longrightarrow>
       IsDiagonal x z \<Longrightarrow> StableCorner s p x z"
  shows "SearchInv s"
  using assms unfolding SearchInv_def DiagInv_def by blast

lemma SearchInv_relink:
  assumes inv: "SearchInv s" and flags: "\<And>l. CachedSolid l s' = CachedSolid l s"
    and pp: "m_PathPoints s' = m_PathPoints s"
    and cells: "\<And>l c'. m_Map s' l = Some c' \<Longrightarrow>
       \<exists>c. m_Map s l = Some c \<and> m_Location c' = m_Location c \<and>
           (m_Parent c' = m_Parent c \<or> l = q \<and> m_Parent c' = caller)"
    and corner: "\<And>p x z. caller = Some p \<Longrightarrow> IsDiagonal x z \<Longrightarrow> q = vadd p (x, 0, z) \<Longrightarrow>
       StableCorner s p x z"
  shows "SearchInv s'"
proof (rule SearchInvI)
  fix l c' assume "m_Map s' l = Some c'"
  from cells[OF this] obtain c where "m_Map s l = Some c" "m_Location c' = m_Location c"
    by blast
  with SearchInvD(1)[OF inv] show "m_Location c' = l" by simp
next
  from pp SearchInvD(2)[OF inv] show "m_PathPoints s' = []" by simp
next
  fix c' p x z
  assume m: "m_Map s' (vadd p (x, 0, z)) = Some c'" and par: "m_Parent c' = Some p"
    and dg: "IsDiagonal x z"
  from cells[OF m] obtain c where c: "m_Map s (vadd p (x, 0, z)) = Some c"
    and alt: "m_Parent c' = m_Parent c \<or> vadd p (x, 0, z) = q \<and> m_Parent c' = caller"
    by blast
  from alt have "StableCorner s p x z"
  proof
    assume "m_Parent c' = m_Parent c"
    with par have "m_Parent c = Some p" by simp
    from SearchInvD(3)[OF inv c this dg refl] show ?thesis .
  next
    assume "vadd p (x, 0, z) = q \<and> m_Parent c' = caller"
    with par have "caller = Some p" "q = vadd p (x, 0, z)" by simp_all
    from corner[OF this(1) dg this(2)] show ?thesis .
  qed
  with flags_eq_StableCorner[of s' s, OF flags] show "StableCorner s' p x z" by simp
qed

lemma SearchInv_ProcessCell:
  assumes "ProcessCell q caller g s = Some s'" "SearchInv s"
    and "\<And>p x z. caller = Some p \<Longrightarrow> IsDiagonal x z \<Longrightarrow> q = vadd p (x, 0, z) \<Longrightarrow>
       StableCorner s p x z"
  shows "SearchInv s'"
  by (rule SearchInv_relink[OF assms(2) ProcessCell_effect(1)[OF assms(1)]
        ProcessCell_effect(2)[OF assms(1)] ProcessCell_effect(3)[OF assms(1)] assms(3)])

lemma SearchInv_OpenListPop:
  assumes "OpenListPop w s = Some (r, s')" "SearchInv s"
  shows "SearchInv s'"
proof (rule SearchInv_relink[OF assms(2) OpenListPop_effect(1)[OF assms(1)]
        OpenListPop_effect(2)[OF assms(1)], where caller = None and q = "(0, 0, 0)"])
  fix l c' assume "m_Map s' l = Some c'"
  from OpenListPop_effect(3)[OF assms(1) this]
  show "\<exists>c. m_Map s l = Some c \<and> m_Location c' = m_Location c \<and>
           (m_Parent c' = m_Parent c \<or> l = (0, 0, 0) \<and> m_Parent c' = None)" by blast
qed simp

lemma SearchInv_Fills:
  assumes f: "Fills s s'" and inv: "SearchInv s"
  shows "SearchInv s'"
proof (rule SearchInvI)
  note o = FillsD(1)[OF f] and a = FillsD(2)[OF f]
  {
    fix l c' assume m: "m_Map s' l = Some c'"
    from OnlyCacheFilledD(3)[OF o m] SearchInvD(1)[OF inv, of l]
    show "m_Location c' = l" by (auto simp: SearchFields_def split: option.splits)
  next
    from OnlyCacheFilledD(1)[OF o] SearchInvD(2)[OF inv] show "m_PathPoints s' = []"
      by (simp add: OtherFields_def)
  next
    fix c' p x z
    assume m: "m_Map s' (vadd p (x, 0, z)) = Some c'" and par: "m_Parent c' = Some p"
      and dg: "IsDiagonal x z"
    from OnlyCacheFilledD(3)[OF o m] par obtain c where c: "m_Map s (vadd p (x, 0, z)) = Some c"
      and "m_Parent c = Some p" by (auto simp: SearchFields_def split: option.splits)
    from SearchInvD(3)[OF inv c this(2) dg refl] have "StableCorner s p x z" .
    with a show "StableCorner s' p x z" by (rule StableCorner_mono)
  }
qed

lemma ProcessCell_Advances:
  assumes "ProcessCell q caller g s = Some s'"
  shows "Advances s s'"
  by (rule flags_eq_Advances) (rule ProcessCell_effect(1)[OF assms])

lemma ProcessIfWalkable_cases:
  assumes "ProcessIfWalkable d w l par cost s = Some s'"
  shows "Fills s s' \<or> (\<exists>s3. Fills s s3 \<and> ProcessCell l (Some par) cost s3 = Some s')"
    "CachedSolid l s' \<noteq> None"
proof -
  from assms obtain b1 s1 where r1: "GetCellIsSolid d w l s = Some (b1, s1)"
    by (auto simp: ProcessIfWalkable_def split: option.splits)
  note f1 = GetCellIsSolid_Fills[OF r1]
  have "(Fills s s' \<or> (\<exists>s3. Fills s s3 \<and> ProcessCell l (Some par) cost s3 = Some s')) \<and>
        Advances s1 s'"
  proof (cases b1)
    case True
    with assms r1 have "s' = s1" by (simp add: ProcessIfWalkable_def)
    with f1 show ?thesis by (simp add: Advances_refl)
  next
    case b1: False
    with assms r1 obtain b2 s2 where
      r2: "GetCellIsSolid d w (vadd l (0, - 1, 0)) s1 = Some (b2, s2)"
      by (auto simp: ProcessIfWalkable_def split: option.splits)
    note f2 = GetCellIsSolid_Fills[OF r2]
    note f02 = Fills_trans[OF f1(1) f2(1)]
    show ?thesis
    proof (cases b2)
      case False
      with assms r1 r2 b1 have "s' = s2" by (simp add: ProcessIfWalkable_def)
      with f02 FillsD(2)[OF f2(1)] show ?thesis by simp
    next
      case b2: True
      with assms r1 r2 b1 obtain b3 s3 where
        r3: "GetCellIsSolid d w (vadd l (0, 1, 0)) s2 = Some (b3, s3)"
        by (auto simp: ProcessIfWalkable_def split: option.splits)
      note f3 = GetCellIsSolid_Fills[OF r3]
      note f03 = Fills_trans[OF f02 f3(1)]
      note a13 = Advances_trans[OF FillsD(2)[OF f2(1)] FillsD(2)[OF f3(1)]]
      show ?thesis
      proof (cases b3)
        case True
        with assms r1 r2 r3 b1 b2 have "s' = s3" by (simp add: ProcessIfWalkable_def)
        with f03 a13 show ?thesis by simp
      next
        case False
        with assms r1 r2 r3 b1 b2 have pc: "ProcessCell l (Some par) cost s3 = Some s'"
          by (simp add: ProcessIfWalkable_def)
        from Advances_trans[OF a13 ProcessCell_Advances[OF pc]] pc f03
        show ?thesis by blast
      qed
    qed
  qed
  then show "Fills s s' \<or> (\<exists>s3. Fills s s3 \<and> ProcessCell l (Some par) cost s3 = Some s')"
    and "CachedSolid l s' \<noteq> None"
    using Advances_cached[of s1 s' l] f1(2) by simp_all
qed

lemma ProcessIfWalkable_Advances:
  assumes "ProcessIfWalkable d w l par cost s = Some s'"
  shows "Advances s s'"
proof -
  from ProcessIfWalkable_cases(1)[OF assms] show ?thesis
  proof
    assume "Fills s s'" then show ?thesis by (rule FillsD)
  next
    assume "\<exists>s3. Fills s s3 \<and> ProcessCell l (Some par) cost s3 = Some s'"
    then obtain s3 where "Fills s s3" "ProcessCell l (Some par) cost s3 = Some s'" by blast
    from Advances_trans[OF FillsD(2)[OF this(1)] ProcessCell_Advances[OF this(2)]]
    show ?thesis .
  qed
qed

lemma SearchInv_ProcessIfWalkable:
  assumes p: "ProcessIfWalkable d w l par cost s = Some s'" and inv: "SearchInv s"
    and corner: "\<And>x z. IsDiagonal x z \<Longrightarrow> l = vadd par (x, 0, z) \<Longrightarrow> StableCorner s par x z"
  shows "SearchInv s'"
proof -
  from ProcessIfWalkable_cases(1)[OF p] show ?thesis
  proof
    assume "Fills s s'" from SearchInv_Fills[OF this inv] show ?thesis .
  next
    assume "\<exists>s3. Fills s s3 \<and> ProcessCell l (Some par) cost s3 = Some s'"
    then obtain s3 where f: "Fills s s3" and pc: "ProcessCell l (Some par) cost s3 = Some s'"
      by blast
    show ?thesis
    proof (rule SearchInv_ProcessCell[OF pc SearchInv_Fills[OF f inv]])
      fix p x z assume "Some par = Some p" "IsDiagonal x z" "l = vadd p (x, 0, z)"
      with corner[of x z] have "StableCorner s par x z" "p = par" by simp_all
      with StableCorner_mono[OF FillsD(2)[OF f]] show "StableCorner s3 p x z" by simp
    qed
  qed
qed

lemma Settled_sealed:
  assumes "CachedSolid l s = Some b" "CachedSolid (vadd l (0, - 1, 0)) s \<noteq> None"
    "CachedSolid (vadd l (0, 1, 0)) s \<noteq> None"
  shows "Settled s l"
  using assms by (simp add: Settled_def)

lemma SearchInv_ProcessDiagonal:
  assumes pd: "ProcessDiagonal d w loc loc (x, z) s = Some s'" and inv: "SearchInv s"
    and dg: "IsDiagonal x z"
    and sealed: "CachedSolid (vadd loc (x, - 1, 0)) s \<noteq> None"
      "CachedSolid (vadd loc (x, 1, 0)) s \<noteq> None"
      "CachedSolid (vadd loc (0, - 1, z)) s \<noteq> None"
      "CachedSolid (vadd loc (0, 1, z)) s \<noteq> None"
  shows "SearchInv s'" "Advances s s'"
proof -
  from pd obtain b1 s1 where r1: "GetCellIsSolid d w (vadd loc (x, 0, 0)) s = Some (b1, s1)"
    by (auto simp: ProcessDiagonal_def split: option.splits)
  note f1 = GetCellIsSolid_Fills[OF r1]
  note a1 = FillsD(2)[OF f1(1)]
  have "SearchInv s' \<and> Advances s s'"
  proof (cases b1)
    case True
    with pd r1 have "s' = s1" by (simp add: ProcessDiagonal_def)
    with SearchInv_Fills[OF f1(1) inv] a1 show ?thesis by simp
  next
    case b1: False
    with pd r1 obtain b2 s2 where
      r2: "GetCellIsSolid d w (vadd loc (0, 0, z)) s1 = Some (b2, s2)"
      by (auto simp: ProcessDiagonal_def split: option.splits)
    note f2 = GetCellIsSolid_Fills[OF r2]
    note f02 = Fills_trans[OF f1(1) f2(1)]
    note a2 = FillsD(2)[OF f02]
    show ?thesis
    proof (cases b2)
      case True
      with pd r1 r2 b1 have "s' = s2" by (simp add: ProcessDiagonal_def)
      with SearchInv_Fills[OF f02 inv] a2 show ?thesis by simp
    next
      case b2: False
      with pd r1 r2 b1 obtain b3 s3 where
        r3: "GetCellIsSolid d w (vadd loc (x, - 1, 0)) s2 = Some (b3, s3)"
        by (auto simp: ProcessDiagonal_def split: option.splits)
      note f3 = GetCellIsSolid_Fills[OF r3]
      note f03 = Fills_trans[OF f02 f3(1)]
      note a3 = FillsD(2)[OF f03]
      show ?thesis
      proof (cases b3)
        case False
        with pd r1 r2 r3 b1 b2 have "s' = s3" by (simp add: ProcessDiagonal_def)
        with SearchInv_Fills[OF f03 inv] a3 show ?thesis by simp
      next
        case b3: True
        with pd r1 r2 r3 b1 b2 obtain b4 s4 where
          r4: "GetCellIsSolid d w (vadd loc (0, - 1, z)) s3 = Some (b4, s4)"
          by (auto simp: ProcessDiagonal_def split: option.splits)
        note f4 = GetCellIsSolid_Fills[OF r4]
        note f04 = Fills_trans[OF f03 f4(1)]
        note a4 = FillsD(2)[OF f04]
        show ?thesis
        proof (cases b4)
          case False
          with pd r1 r2 r3 r4 b1 b2 b3 have "s' = s4" by (simp add: ProcessDiagonal_def)
          with SearchInv_Fills[OF f04 inv] a4 show ?thesis by simp
        next
          case b4: True
          with pd r1 r2 r3 r4 b1 b2 b3 have
            piw: "ProcessIfWalkable d w (vadd loc (x, 0, z)) loc 14 s4 = Some s'"
            by (simp add: ProcessDiagonal_def)
          note a14 = Advances_trans[OF Advances_trans[OF FillsD(2)[OF f2(1)] FillsD(2)[OF f3(1)]]
                       FillsD(2)[OF f4(1)]]
          note a24 = Advances_trans[OF FillsD(2)[OF f3(1)] FillsD(2)[OF f4(1)]]
          note a34 = FillsD(2)[OF f4(1)]
          have st1: "Settled s1 (vadd loc (x, 0, 0))"
            using f1(2) Advances_cached[OF a1 sealed(1)] Advances_cached[OF a1 sealed(2)]
            by (intro Settled_sealed) (simp_all add: vadd_vadd)
          have st2: "Settled s2 (vadd loc (0, 0, z))"
            using f2(2) Advances_cached[OF a2 sealed(3)] Advances_cached[OF a2 sealed(4)]
            by (intro Settled_sealed) (simp_all add: vadd_vadd)
          have c1: "CachedSolid (vadd loc (x, 0, 0)) s4 = Some False"
            using Advances_settled[OF a14 st1] f1(2) b1 by simp
          have c2: "CachedSolid (vadd loc (0, 0, z)) s4 = Some False"
            using Advances_settled[OF a24 st2] f2(2) b2 by simp
          have c3: "CachedSolid (vadd loc (x, - 1, 0)) s4 = Some True"
            using Advances_settled[OF a34 Settled_solid] f3(2) b3 by simp
          have c4: "CachedSolid (vadd loc (0, - 1, z)) s4 = Some True"
            using f4(2) b4 by simp
          have sc: "StableCorner s4 loc x z"
            using c1 c2 c3 c4 Settled_mono[OF a14 st1] Settled_mono[OF a24 st2]
            by (simp add: StableCorner_def CornerClear_def)
          have "SearchInv s'"
          proof (rule SearchInv_ProcessIfWalkable[OF piw SearchInv_Fills[OF f04 inv]])
            fix x' z' assume "IsDiagonal x' z'" "vadd loc (x, 0, z) = vadd loc (x', 0, z')"
            then have "x' = x" "z' = z" by (simp_all add: vadd_cancel)
            with sc show "StableCorner s4 loc x' z'" by simp
          qed
          with Advances_trans[OF a4 ProcessIfWalkable_Advances[OF piw]] show ?thesis by simp
        qed
      qed
    qed
  qed
  then show "SearchInv s'" "Advances s s'" by simp_all
qed

lemma ForEach_orthogonal:
  assumes "ForEach offs (\<lambda>off. ProcessIfWalkable d w (vadd loc off) loc 10) s = Some s'"
    "SearchInv s" "\<And>x z. IsDiagonal x z \<Longrightarrow> (x, 0, z) \<notin> set offs"
  shows "SearchInv s' \<and> Advances s s' \<and> (\<forall>off \<in> set offs. CachedSolid (vadd loc off) s' \<noteq> None)"
  using assms
proof (induction offs arbitrary: s)
  case Nil
  then show ?case by (simp add: Advances_refl)
next
  case (Cons off offs)
  from Cons.prems(1) obtain s1 where
    p: "ProcessIfWalkable d w (vadd loc off) loc 10 s = Some s1" and
    r: "ForEach offs (\<lambda>off. ProcessIfWalkable d w (vadd loc off) loc 10) s1 = Some s'"
    by (auto split: option.splits)
  have i1: "SearchInv s1"
  proof (rule SearchInv_ProcessIfWalkable[OF p Cons.prems(2)])
    fix x z assume dg: "IsDiagonal x z" and "vadd loc off = vadd loc (x, 0, z)"
    then have "off = (x, 0, z)" by (simp add: vadd_cancel)
    with Cons.prems(3)[OF dg] show "StableCorner s loc x z" by simp
  qed
  have "\<And>x z. IsDiagonal x z \<Longrightarrow> (x, 0, z) \<notin> set offs"
    using Cons.prems(3) by auto
  from Cons.IH[OF r i1 this] have i': "SearchInv s'" and a': "Advances s1 s'"
    and c': "\<forall>off \<in> set offs. CachedSolid (vadd loc off) s' \<noteq> None" by simp_all
  from Advances_cached[OF a' ProcessIfWalkable_cases(2)[OF p]]
  have "CachedSolid (vadd loc off) s' \<noteq> None" .
  with i' c' Advances_trans[OF ProcessIfWalkable_Advances[OF p] a'] show ?case by simp
qed

lemma OrthogonalOffsets_set:
  "set OrthogonalOffsets =
     {(1, - 1, 0), (- 1, - 1, 0), (0, - 1, 1), (0, - 1, - 1),
      (1, 0, 0), (- 1, 0, 0), (0, 0, 1), (0, 0, - 1),
      (1, 1, 0), (- 1, 1, 0), (0, 1, 1), (0, 1, - 1)}"
  by (auto simp: OrthogonalOffsets_def)

lemma ForEach_diagonal:
  assumes "ForEach xzs (ProcessDiagonal d w loc loc) s = Some s'" "SearchInv s"
    "\<forall>xz \<in> set xzs. IsDiagonal (fst xz) (snd xz)"
    "\<forall>off \<in> set OrthogonalOffsets. CachedSolid (vadd loc off) s \<noteq> None"
  shows "SearchInv s'"
  using assms
proof (induction xzs arbitrary: s)
  case Nil
  then show ?case by simp
next
  case (Cons xz xzs)
  obtain x z where xz: "xz = (x, z)" by (cases xz)
  from Cons.prems(1) xz obtain s1 where
    p: "ProcessDiagonal d w loc loc (x, z) s = Some s1" and
    r: "ForEach xzs (ProcessDiagonal d w loc loc) s1 = Some s'"
    by (auto split: option.splits)
  from Cons.prems(3) xz have dg: "IsDiagonal x z" by simp
  have sealed: "CachedSolid (vadd loc (x, - 1, 0)) s \<noteq> None"
      "CachedSolid (vadd loc (x, 1, 0)) s \<noteq> None"
      "CachedSolid (vadd loc (0, - 1, z)) s \<noteq> None"
      "CachedSolid (vadd loc (0, 1, z)) s \<noteq> None"
    using dg Cons.prems(4) unfolding OrthogonalOffsets_set IsDiagonal_def by auto
  note i1 = SearchInv_ProcessDiagonal[OF p Cons.prems(2) dg sealed]
  have "\<forall>off \<in> set OrthogonalOffsets. CachedSolid (vadd loc off) s1 \<noteq> None"
    using Cons.prems(4) Advances_cached[OF i1(2)] by blast
  from Cons.IH[OF r i1(1) _ this] Cons.prems(3) show ?case by simp
qed

lemma CachedSolid_updates [simp]:
  "CachedSolid l (s\<lparr>StepOnceCalls := k\<rparr>) = CachedSolid l s"
  "CachedSolid l (s\<lparr>m_PathStatus := st\<rparr>) = CachedSolid l s"
  "CachedSolid l (s\<lparr>m_StepsLeft := n\<rparr>) = CachedSolid l s"
  by (simp_all add: CachedSolid_def)

lemma SearchInv_updates [simp]:
  "SearchInv (s\<lparr>StepOnceCalls := k\<rparr>) = SearchInv s"
  "SearchInv (s\<lparr>m_PathStatus := st\<rparr>) = SearchInv s"
  "SearchInv (s\<lparr>m_StepsLeft := n\<rparr>) = SearchInv s"
  by (simp_all add: SearchInv_def DiagInv_def StableCorner_def CornerClear_def Settled_def)

lemma SearchInv_StepOnce:
  assumes st: "StepOnce d w s = Some (False, s')" and inv: "SearchInv s"
  shows "SearchInv s'"
proof -
  let ?s0 = "s\<lparr>StepOnceCalls := Suc (StepOnceCalls s)\<rparr>"
  from st obtain r s1 where pop: "OpenListPop w ?s0 = Some (r, s1)"
    by (auto simp: StepOnce_def split: option.splits)
  from st pop obtain cur where r: "r = Some cur"
    by (cases r) (auto simp: StepOnce_def)
  from SearchInv_OpenListPop[OF pop] inv have i1: "SearchInv s1" by simp
  from st pop r obtain c where c: "m_Map s1 cur = Some c"
    by (auto simp: StepOnce_def split: option.splits)
  from SearchInvD(1)[OF i1 c] have loc: "m_Location c = cur" .
  from st pop r c have "\<not> IsNextToDestination (m_Location c) (m_Destination s1)"
    by (auto simp: StepOnce_def split: option.splits)
  with st pop r c loc obtain s2 where
    o: "ForEach OrthogonalOffsets (\<lambda>off. ProcessIfWalkable d w (vadd cur off) cur 10) s1
          = Some s2" and
    dg: "ForEach DiagonalOffsets (ProcessDiagonal d w cur cur) s2 = Some s'"
    by (auto simp: StepOnce_def split: option.splits)
  have "\<And>x z. IsDiagonal x z \<Longrightarrow> (x, 0, z) \<notin> set OrthogonalOffsets"
    unfolding OrthogonalOffsets_set IsDiagonal_def by auto
  from ForEach_orthogonal[OF o i1 this] have i2: "SearchInv s2"
    and c2: "\<forall>off \<in> set OrthogonalOffsets. CachedSolid (vadd cur off) s2 \<noteq> None" by simp_all
  have "\<forall>xz \<in> set DiagonalOffsets. IsDiagonal (fst xz) (snd xz)"
    by (simp add: DiagonalOffsets_def IsDiagonal_def)
  from ForEach_diagonal[OF dg i2 this c2] show ?thesis .
qed

lemma SearchInv_StepOnceTimes:
  "StepOnceTimes n d w s = Some s' \<Longrightarrow> SearchInv s \<Longrightarrow> SearchInv s'"
proof (induction n arbitrary: s)
  case 0
  then show ?case by simp
next
  case (Suc n)
  from Suc.prems(1) obtain s1 where st: "StepOnce d w s = Some (False, s1)"
    and r: "StepOnceTimes n d w s1 = Some s'"
    by (auto split: option.splits bool.splits)
  from Suc.IH[OF r SearchInv_StepOnce[OF st Suc.prems(2)]] show ?case .
qed

lemma SearchInv_InitialPath: "SearchInv (InitialPath a b)"
  by (simp add: SearchInv_def DiagInv_def)

lemma SearchInv_Construct:
  assumes "Construct d w a b n = Some (launched, s)"
  shows "SearchInv s"
proof -
  from assms obtain b1 s1 where
    r1: "GetCellIsSolid d w a (InitialPath a b) = Some (b1, s1)"
    by (auto simp: Construct_def split: option.splits)
  from SearchInv_Fills[OF GetCellIsSolid_Fills(1)[OF r1] SearchInv_InitialPath]
  have i1: "SearchInv s1" .
  from assms r1 obtain b2 s2 where
    r2: "(if b1 then Some (True, s1) else GetCellIsSolid d w (m_Destination s1) s1)
           = Some (b2, s2)"
    by (auto simp: Construct_def split: option.splits)
  have i2: "SearchInv s2"
  proof (cases b1)
    case True
    with r2 i1 show ?thesis by simp
  next
    case False
    with r2 have "GetCellIsSolid d w (m_Destination s1) s1 = Some (b2, s2)" by simp
    from SearchInv_Fills[OF GetCellIsSolid_Fills(1)[OF this] i1] show ?thesis .
  qed
  show ?thesis
  proof (cases b2)
    case True
    with assms r1 r2 have "s = s2\<lparr>m_PathStatus := PATH_NOT_FOUND\<rparr>"
      by (auto simp: Construct_def)
    with i2 show ?thesis by simp
  next
    case False
    with assms r1 r2 obtain s3 where
      g: "GetCell d w a (s2\<lparr>m_PathStatus := CALCULATING, m_StepsLeft := n\<rparr>) = Some s3" and
      pc: "ProcessCell a None 0 s3 = Some s"
      by (auto simp: Construct_def split: option.splits)
    from SearchInv_Fills[OF GetCell_Fills[OF g]] i2 have "SearchInv s3" by simp
    from SearchInv_ProcessCell[OF pc this] show ?thesis by simp
  qed
qed

lemma Linked_nth:
  "Linked m ps \<Longrightarrow> Suc i < length ps \<Longrightarrow>
     \<exists>c. m (ps ! i) = Some c \<and> m_Parent c = Some (ps ! Suc i)"
proof (induction m ps arbitrary: i rule: Linked.induct)
  case (1 m q p ps)
  show ?case
  proof (cases i)
    case 0
    with "1.prems"(1) show ?thesis by (auto split: option.splits)
  next
    case (Suc j)
    with "1.prems" have "Linked m (p # ps)" "Suc j < length (p # ps)" by simp_all
    from "1.IH"[OF this] Suc show ?thesis by simp
  qed
qed simp_all

lemma PopulatePath_Linked:
  assumes "PopulatePath cur s = Some s'" "\<forall>l c. m_Map s l = Some c \<longrightarrow> m_Location c = l"
  shows "\<exists>chain. m_PathPoints s' = m_PathPoints s @ cur # chain \<and>
           Linked (m_Map s) (cur # chain)"
  using assms
proof (induction rule: PopulatePath.raw_induct[rotated 1, consumes 1])
  case (1 PopulatePath' CurrentCell s s')
  note eq = "1.hyps"
  from eq obtain c where c: "m_Map s CurrentCell = Some c"
    by (auto split: option.splits)
  with "1.prems" have loc: "m_Location c = CurrentCell" by blast
  show ?case
  proof (cases "m_Parent c")
    case None
    with eq c loc have "m_PathPoints s' = m_PathPoints s @ [CurrentCell]" by auto
    then show ?thesis by simp
  next
    case (Some p)
    let ?s1 = "s\<lparr>m_PathPoints := m_PathPoints s @ [m_Location c]\<rparr>"
    from Some eq c have r: "PopulatePath' p ?s1 = Some s'" by simp
    from "1.prems" have "\<forall>l c. m_Map ?s1 l = Some c \<longrightarrow> m_Location c = l" by simp
    from "1.IH"[OF r this] obtain chain where
      "m_PathPoints s' = m_PathPoints ?s1 @ p # chain" "Linked (m_Map ?s1) (p # chain)"
      by blast
    with c Some loc have "m_PathPoints s' = m_PathPoints s @ CurrentCell # p # chain \<and>
           Linked (m_Map s) (CurrentCell # p # chain)" by simp
    then show ?thesis by blast
  qed
qed

lemma StepOnce_found:
  assumes "StepOnce d w s = Some (True, s')" "m_PathStatus s' = PATH_FOUND"
  shows "\<exists>cur s1 s2. OpenListPop w (s\<lparr>StepOnceCalls := Suc (StepOnceCalls s)\<rparr>)
             = Some (Some cur, s1) \<and>
           PopulatePath cur s1 = Some s2 \<and> m_PathPoints s' = m_PathPoints s2"
proof -
  let ?s0 = "s\<lparr>StepOnceCalls := Suc (StepOnceCalls s)\<rparr>"
  from assms obtain r s1 where pop: "OpenListPop w ?s0 = Some (r, s1)"
    by (auto simp: StepOnce_def split: option.splits)
  from assms pop obtain cur where r: "r = Some cur"
    by (cases r) (auto simp: StepOnce_def FinishCalculationAs_def FinishCalculation_def)
  from assms(1) pop r obtain c where c: "m_Map s1 cur = Some c"
    by (auto simp: StepOnce_def split: option.splits)
  from assms(1) pop r c obtain s2 where "PopulatePath cur s1 = Some s2"
    "s' = FinishCalculationAs PATH_FOUND s2"
    by (auto simp: StepOnce_def split: option.splits if_splits)
  with pop r show ?thesis
    by (auto simp: FinishCalculationAs_def FinishCalculation_def)
qed

lemma found_path_corners:
  assumes c: "Construct d w a b n = Some (True, s0)"
    and run: "StepOnceTimes k d w s0 = Some sk"
    and fin: "StepOnce d w sk = Some (True, sf)" and found: "m_PathStatus sf = PATH_FOUND"
    and i: "Suc i < length (m_PathPoints sf)"
    and dg: "IsDiagonal x z"
    and mv: "m_PathPoints sf ! i = vadd (m_PathPoints sf ! Suc i) (x, 0, z)"
  shows "CornerClear sk (m_PathPoints sf ! Suc i) x z"
proof -
  let ?s0 = "sk\<lparr>StepOnceCalls := Suc (StepOnceCalls sk)\<rparr>"
  from SearchInv_StepOnceTimes[OF run SearchInv_Construct[OF c]] have ik: "SearchInv sk" .
  from StepOnce_found[OF fin found] obtain cur s1 s2 where
    pop: "OpenListPop w ?s0 = Some (Some cur, s1)" and
    pp: "PopulatePath cur s1 = Some s2" and e: "m_PathPoints sf = m_PathPoints s2"
    by blast
  from SearchInv_OpenListPop[OF pop] ik have i1: "SearchInv s1" by simp
  from SearchInvD(1)[OF i1] have "\<forall>l c. m_Map s1 l = Some c \<longrightarrow> m_Location c = l" by blast
  from PopulatePath_Linked[OF pp this] SearchInvD(2)[OF i1] e obtain chain where
    pts: "m_PathPoints sf = cur # chain" and lk: "Linked (m_Map s1) (cur # chain)" by auto
  from Linked_nth[OF lk, of i] i pts obtain c where
    c: "m_Map s1 (m_PathPoints sf ! i) = Some c" and
    par: "m_Parent c = Some (m_PathPoints sf ! Suc i)" by auto
  from SearchInvD(3)[OF i1 c par dg mv] have "CornerClear s1 (m_PathPoints sf ! Suc i) x z"
    by (simp add: StableCorner_def)
  with OpenListPop_effect(1)[OF pop] show ?thesis by (simp add: CornerClear_def)
qed

subsection \<open>The loop of Step under a positive budget\<close>

lemma StepOnce_StepsLeft:
  assumes "StepOnce d w s = Some (b, s')"
  shows "m_StepsLeft s' = m_StepsLeft s"
  using StepOnce_Params[OF assms] by (simp add: Params_def)

lemma StepLoop_budget:
  "m_StepsLeft s = N \<Longrightarrow> 1 \<le> i \<Longrightarrow> i \<le> CALCULATIONS_PER_STEP * N \<Longrightarrow>
   CALCULATIONS_PER_STEP * N \<le> INT_MAX \<Longrightarrow> j = nat (CALCULATIONS_PER_STEP * N - i) \<Longrightarrow>
   StepLoop d w i s = Some s' \<longleftrightarrow>
     (\<exists>n sn. StepOnceTimes n d w s = Some sn \<and>
        (i + int n < CALCULATIONS_PER_STEP * N \<and> StepOnce d w sn = Some (True, s') \<or>
         i + int n = CALCULATIONS_PER_STEP * N \<and> s' = FinishCalculationAs PATH_NOT_FOUND sn))"
proof (induction j arbitrary: i s)
  case 0
  then have i: "i = CALCULATIONS_PER_STEP * N" by simp
  with 0 have rng: "\<not> (CALCULATIONS_PER_STEP * m_StepsLeft s < INT_MIN \<or>
         INT_MAX < CALCULATIONS_PER_STEP * m_StepsLeft s)"
    by (simp add: INT_MIN_def)
  note eq = StepLoop.simps[of d w i s]
  from 0 rng have l: "StepLoop d w i s = Some (FinishCalculationAs PATH_NOT_FOUND s)"
    unfolding eq using i by simp
  show ?case
  proof
    assume "StepLoop d w i s = Some s'"
    with l have "s' = FinishCalculationAs PATH_NOT_FOUND s" by simp
    with i have "StepOnceTimes 0 d w s = Some s \<and>
        (i + int 0 < CALCULATIONS_PER_STEP * N \<and> StepOnce d w s = Some (True, s') \<or>
         i + int 0 = CALCULATIONS_PER_STEP * N \<and> s' = FinishCalculationAs PATH_NOT_FOUND s)"
      by simp
    then show "\<exists>n sn. StepOnceTimes n d w s = Some sn \<and>
        (i + int n < CALCULATIONS_PER_STEP * N \<and> StepOnce d w sn = Some (True, s') \<or>
         i + int n = CALCULATIONS_PER_STEP * N \<and> s' = FinishCalculationAs PATH_NOT_FOUND sn)"
      by (intro exI)
  next
    assume "\<exists>n sn. StepOnceTimes n d w s = Some sn \<and>
        (i + int n < CALCULATIONS_PER_STEP * N \<and> StepOnce d w sn = Some (True, s') \<or>
         i + int n = CALCULATIONS_PER_STEP * N \<and> s' = FinishCalculationAs PATH_NOT_FOUND sn)"
    then obtain n sn where r: "StepOnceTimes n d w s = Some sn" and
      alt: "i + int n < CALCULATIONS_PER_STEP * N \<and> StepOnce d w sn = Some (True, s') \<or>
         i + int n = CALCULATIONS_PER_STEP * N \<and> s' = FinishCalculationAs PATH_NOT_FOUND sn"
      by blast
    from alt i have n: "n = 0" and e: "s' = FinishCalculationAs PATH_NOT_FOUND sn" by auto
    from r n have "sn = s" by simp
    with e l show "StepLoop d w i s = Some s'" by simp
  qed
next
  case (Suc j)
  then have lt: "i < CALCULATIONS_PER_STEP * N" and j: "j = nat (CALCULATIONS_PER_STEP * N - (i + 1))"
    by simp_all
  from Suc.prems lt have rng: "\<not> (CALCULATIONS_PER_STEP * m_StepsLeft s < INT_MIN \<or>
         INT_MAX < CALCULATIONS_PER_STEP * m_StepsLeft s)"
    by (simp add: INT_MIN_def)
  from lt Suc.prems have im: "\<not> INT_MAX \<le> i" by simp
  from lt Suc.prems(1) rng im have l: "StepLoop d w i s =
     (case StepOnce d w s of
        None \<Rightarrow> None
      | Some (True, s1) \<Rightarrow> Some s1
      | Some (False, s1) \<Rightarrow> StepLoop d w (i + 1) s1)"
    by (simp add: StepLoop.simps[of d w i s] split: option.splits bool.splits prod.splits)
  let ?R = "\<lambda>i s. \<exists>n sn. StepOnceTimes n d w s = Some sn \<and>
        (i + int n < CALCULATIONS_PER_STEP * N \<and> StepOnce d w sn = Some (True, s') \<or>
         i + int n = CALCULATIONS_PER_STEP * N \<and> s' = FinishCalculationAs PATH_NOT_FOUND sn)"
  show ?case
  proof (cases "StepOnce d w s")
    case None
    with l have l': "StepLoop d w i s = None" by simp
    have "\<not> ?R i s"
    proof
      assume "?R i s"
      then obtain n sn where r: "StepOnceTimes n d w s = Some sn" and
        alt: "i + int n < CALCULATIONS_PER_STEP * N \<and> StepOnce d w sn = Some (True, s') \<or>
          i + int n = CALCULATIONS_PER_STEP * N \<and> s' = FinishCalculationAs PATH_NOT_FOUND sn"
        by blast
      show False
      proof (cases n)
        case 0
        with r have "sn = s" by simp
        with alt None lt 0 show False by simp
      next
        case (Suc m)
        with r None show False by simp
      qed
    qed
    with l' show ?thesis by simp
  next
    case (Some bs)
    obtain b s1 where bs: "bs = (b, s1)" by (cases bs)
    with Some have so: "StepOnce d w s = Some (b, s1)" by simp
    show ?thesis
    proof (cases b)
      case True
      with l so have l': "StepLoop d w i s = Some s1" by simp
      have "?R i s \<longleftrightarrow> s' = s1"
      proof
        assume "?R i s"
        then obtain n sn where r: "StepOnceTimes n d w s = Some sn" and
          alt: "i + int n < CALCULATIONS_PER_STEP * N \<and> StepOnce d w sn = Some (True, s') \<or>
            i + int n = CALCULATIONS_PER_STEP * N \<and> s' = FinishCalculationAs PATH_NOT_FOUND sn"
          by blast
        show "s' = s1"
        proof (cases n)
          case 0
          with r have "sn = s" by simp
          with alt so True lt 0 show ?thesis by simp
        next
          case (Suc m)
          with r so True show ?thesis by simp
        qed
      next
        assume "s' = s1"
        with so True lt have "StepOnceTimes 0 d w s = Some s \<and>
          (i + int 0 < CALCULATIONS_PER_STEP * N \<and> StepOnce d w s = Some (True, s') \<or>
           i + int 0 = CALCULATIONS_PER_STEP * N \<and> s' = FinishCalculationAs PATH_NOT_FOUND s)"
          by simp
        then show "?R i s" by (intro exI)
      qed
      with l' show ?thesis by auto
    next
      case False
      with l so have l': "StepLoop d w i s = StepLoop d w (i + 1) s1" by simp
      from StepOnce_StepsLeft[OF so] Suc.prems(1) have n1: "m_StepsLeft s1 = N" by simp
      from lt Suc.prems have b1: "1 \<le> i + 1" "i + 1 \<le> CALCULATIONS_PER_STEP * N" by simp_all
      note ih = Suc.IH[OF n1 b1 Suc.prems(4) j]
      have "?R i s \<longleftrightarrow> ?R (i + 1) s1"
      proof
        assume "?R i s"
        then obtain n sn where r: "StepOnceTimes n d w s = Some sn" and
          alt: "i + int n < CALCULATIONS_PER_STEP * N \<and> StepOnce d w sn = Some (True, s') \<or>
            i + int n = CALCULATIONS_PER_STEP * N \<and> s' = FinishCalculationAs PATH_NOT_FOUND sn"
          by blast
        show "?R (i + 1) s1"
        proof (cases n)
          case 0
          with r have "sn = s" by simp
          with alt so False lt 0 show ?thesis by simp
        next
          case (Suc m)
          with r so False have r': "StepOnceTimes m d w s1 = Some sn" by simp
          from alt Suc have
            "i + 1 + int m < CALCULATIONS_PER_STEP * N \<and> StepOnce d w sn = Some (True, s') \<or>
             i + 1 + int m = CALCULATIONS_PER_STEP * N \<and>
               s' = FinishCalculationAs PATH_NOT_FOUND sn"
            by (simp add: algebra_simps)
          with r' show ?thesis by blast
        qed
      next
        assume "?R (i + 1) s1"
        then obtain m sn where r: "StepOnceTimes m d w s1 = Some sn" and
          alt: "i + 1 + int m < CALCULATIONS_PER_STEP * N \<and> StepOnce d w sn = Some (True, s') \<or>
            i + 1 + int m = CALCULATIONS_PER_STEP * N \<and>
              s' = FinishCalculationAs PATH_NOT_FOUND sn"
          by blast
        from r so False have r': "StepOnceTimes (Suc m) d w s = Some sn" by simp
        from alt have
          "i + int (Suc m) < CALCULATIONS_PER_STEP * N \<and> StepOnce d w sn = Some (True, s') \<or>
           i + int (Suc m) = CALCULATIONS_PER_STEP * N \<and>
             s' = FinishCalculationAs PATH_NOT_FOUND sn"
          by (simp add: algebra_simps)
        with r' show "?R i s" by blast
      qed
      with l' ih show ?thesis by simp
    qed
  qed
qed

lemma Step_budget:
  assumes "m_StepsLeft s = N" "1 \<le> N" "CALCULATIONS_PER_STEP * N \<le> INT_MAX"
  shows "Step d w s = Some s' \<longleftrightarrow>
     (\<exists>n sn. StepOnceTimes n d w s = Some sn \<and>
        (int n + 1 < CALCULATIONS_PER_STEP * N \<and> StepOnce d w sn = Some (True, s') \<or>
         int n + 1 = CALCULATIONS_PER_STEP * N \<and> s' = FinishCalculationAs PATH_NOT_FOUND sn))"
proof -
  from assms(2) have "1 \<le> CALCULATIONS_PER_STEP * N" by (simp add: CALCULATIONS_PER_STEP_def)
  from StepLoop_budget[where i = 1 and d = d and w = w and s' = s',
      OF assms(1) order_refl this assms(3) refl]
  show ?thesis by (simp add: Step_def add.commute)
qed

lemma FinishCalculationAs_simps [simp]:
  "m_PathStatus (FinishCalculationAs st s) = st"
  "m_PathPoints (FinishCalculationAs st s) = m_PathPoints s"
  "StepOnceCalls (FinishCalculationAs st s) = StepOnceCalls s"
  by (simp_all add: FinishCalculationAs_def FinishCalculation_def)

lemma Step_budget_status:
  assumes "m_StepsLeft s = N" "1 \<le> N" "CALCULATIONS_PER_STEP * N \<le> INT_MAX"
  shows "Step d w s = Some s' \<longleftrightarrow>
     (\<exists>n sn. StepOnceTimes n d w s = Some sn \<and>
        (int n + 1 < CALCULATIONS_PER_STEP * N \<and> StepOnce d w sn = Some (True, s') \<and>
           (m_PathStatus s' = PATH_FOUND \<or> m_PathStatus s' = PATH_NOT_FOUND) \<or>
         int n + 1 = CALCULATIONS_PER_STEP * N \<and>
           s' = FinishCalculationAs PATH_NOT_FOUND sn \<and>
           m_PathStatus s' = PATH_NOT_FOUND \<and> m_PathPoints s' = m_PathPoints sn))"
    (is "?L \<longleftrightarrow> ?R")
proof
  assume ?L
  with Step_budget[OF assms, of d w s'] obtain n sn where
    r: "StepOnceTimes n d w s = Some sn" and
    alt: "int n + 1 < CALCULATIONS_PER_STEP * N \<and> StepOnce d w sn = Some (True, s') \<or>
          int n + 1 = CALCULATIONS_PER_STEP * N \<and> s' = FinishCalculationAs PATH_NOT_FOUND sn"
    by blast
  from alt have "int n + 1 < CALCULATIONS_PER_STEP * N \<and> StepOnce d w sn = Some (True, s') \<and>
           (m_PathStatus s' = PATH_FOUND \<or> m_PathStatus s' = PATH_NOT_FOUND) \<or>
         int n + 1 = CALCULATIONS_PER_STEP * N \<and>
           s' = FinishCalculationAs PATH_NOT_FOUND sn \<and>
           m_PathStatus s' = PATH_NOT_FOUND \<and> m_PathPoints s' = m_PathPoints sn"
  proof
    assume a: "int n + 1 < CALCULATIONS_PER_STEP * N \<and> StepOnce d w sn = Some (True, s')"
    then have "StepOnce d w sn = Some (True, s')" ..
    from StepOnce_True[OF this]
    have "m_PathStatus s' = PATH_FOUND \<or> m_PathStatus s' = PATH_NOT_FOUND" by fast
    with a show ?thesis by simp
  next
    assume a: "int n + 1 = CALCULATIONS_PER_STEP * N \<and>
      s' = FinishCalculationAs PATH_NOT_FOUND sn"
    then have "s' = FinishCalculationAs PATH_NOT_FOUND sn" ..
    then have "m_PathStatus s' = PATH_NOT_FOUND \<and> m_PathPoints s' = m_PathPoints sn" by simp
    with a show ?thesis by simp
  qed
  with r show ?R by (intro exI conjI)
next
  assume ?R
  then obtain n sn where r: "StepOnceTimes n d w s = Some sn" and
    alt: "int n + 1 < CALCULATIONS_PER_STEP * N \<and> StepOnce d w sn = Some (True, s') \<and>
           (m_PathStatus s' = PATH_FOUND \<or> m_PathStatus s' = PATH_NOT_FOUND) \<or>
         int n + 1 = CALCULATIONS_PER_STEP * N \<and>
           s' = FinishCalculationAs PATH_NOT_FOUND sn \<and>
           m_PathStatus s' = PATH_NOT_FOUND \<and> m_PathPoints s' = m_PathPoints sn"
    by (elim exE conjE)
  from alt have
    "int n + 1 < CALCULATIONS_PER_STEP * N \<and> StepOnce d w sn = Some (True, s') \<or>
     int n + 1 = CALCULATIONS_PER_STEP * N \<and> s' = FinishCalculationAs PATH_NOT_FOUND sn"
    by (elim disjE conjE) simp_all
  with r have "\<exists>n sn. StepOnceTimes n d w s = Some sn \<and>
        (int n + 1 < CALCULATIONS_PER_STEP * N \<and> StepOnce d w sn = Some (True, s') \<or>
         int n + 1 = CALCULATIONS_PER_STEP * N \<and> s' = FinishCalculationAs PATH_NOT_FOUND sn)"
    by (intro exI conjI)
  with Step_budget[OF assms, of d w s'] show ?L by simp
qed

lemma search_has_no_points:
  assumes "Construct d w a b n = Some (launched, s0)" "StepOnceTimes k d w s0 = Some sk"
  shows "m_PathPoints sk = []"
  by (rule SearchInvD(2)[OF SearchInv_StepOnceTimes[OF assms(2) SearchInv_Construct[OF assms(1)]]])

subsection \<open>The top of the open list\<close>

text \<open>
  \<open>pq_top\<close> is a queued cell of least \<^verbatim>\<open>m_F\<close>, and every queued cell of least
  \<^verbatim>\<open>m_F\<close> is \<open>pq_top\<close> for some tie-break: the contract of \<^verbatim>\<open>top()\<close>, no more.
\<close>

lemma LeastF_subset: "set (LeastF s qs) \<subseteq> set qs"
  by (auto simp: LeastF_def)

lemma LeastF_least:
  assumes "x \<in> set (LeastF s qs)" "r \<in> set qs"
  shows "CellF s x \<le> CellF s r"
  using assms by (auto simp: LeastF_def list_all_iff)

lemma pq_top_in_LeastF:
  assumes "LeastF s (p # ps) \<noteq> []"
  shows "pq_top w s p ps \<in> set (LeastF s (p # ps))"
proof (cases "LeastF s (p # ps)")
  case Nil
  with assms show ?thesis by simp
next
  case (Cons x xs)
  then show ?thesis by (cases xs) (auto simp: pq_top_def)
qed

lemma LeastF_nonempty: "LeastF s (p # ps) \<noteq> []"
proof -
  have "\<exists>q \<in> set (p # ps). \<forall>r \<in> set (p # ps). CellF s q \<le> CellF s r"
  proof (induction ps)
    case Nil
    show ?case by simp
  next
    case (Cons a ps)
    then obtain q where q: "q \<in> set (p # ps)" "\<forall>r \<in> set (p # ps). CellF s q \<le> CellF s r"
      by blast
    show ?case
    proof (cases "CellF s q \<le> CellF s a")
      case True
      with q show ?thesis by auto
    next
      case False
      with q have "\<forall>r \<in> set (p # a # ps). CellF s a \<le> CellF s r" by auto
      then show ?thesis by auto
    qed
  qed
  then obtain q where "q \<in> set (p # ps)" "\<forall>r \<in> set (p # ps). CellF s q \<le> CellF s r" by blast
  then have "q \<in> set (LeastF s (p # ps))"
    unfolding LeastF_def set_filter list_all_iff by blast
  then show ?thesis by auto
qed

lemma pq_top_least:
  "pq_top w s p ps \<in> set (p # ps) \<and> (\<forall>r \<in> set (p # ps). CellF s (pq_top w s p ps) \<le> CellF s r)"
  using pq_top_in_LeastF[OF LeastF_nonempty, of w s p ps] LeastF_subset[of s "p # ps"]
    LeastF_least[of "pq_top w s p ps" s "p # ps"] by blast

lemma pq_top_any:
  assumes "x \<in> set (LeastF s (p # ps))"
  shows "pq_top (w\<lparr>TieBreak := \<lambda>t cands. x\<rparr>) s p ps = x"
proof (cases "LeastF s (p # ps)")
  case Nil
  with assms show ?thesis by simp
next
  case (Cons y ys)
  with assms show ?thesis by (cases ys) (auto simp: pq_top_def)
qed

subsection \<open>The cache invariant along a search\<close>

lemma ProcessIfWalkable_invariant:
  assumes p: "ProcessIfWalkable d w l par cost s = Some s'" and i: "I s"
    and rd: "\<And>a t b t'. GetCellIsSolid d w a t = Some (b, t') \<Longrightarrow> I t \<Longrightarrow> I t'"
    and pc: "\<And>t t'. ProcessCell l (Some par) cost t = Some t' \<Longrightarrow> I t \<Longrightarrow> I t'"
  shows "I s'"
proof -
  from p obtain b1 s1 where r1: "GetCellIsSolid d w l s = Some (b1, s1)"
    by (auto simp: ProcessIfWalkable_def split: option.splits)
  note i1 = rd[OF r1 i]
  show ?thesis
  proof (cases b1)
    case True
    with p r1 have "s' = s1" by (simp add: ProcessIfWalkable_def)
    with i1 show ?thesis by simp
  next
    case b1: False
    with p r1 obtain b2 s2 where
      r2: "GetCellIsSolid d w (vadd l (0, - 1, 0)) s1 = Some (b2, s2)"
      by (auto simp: ProcessIfWalkable_def split: option.splits)
    note i2 = rd[OF r2 i1]
    show ?thesis
    proof (cases b2)
      case False
      with p r1 r2 b1 have "s' = s2" by (simp add: ProcessIfWalkable_def)
      with i2 show ?thesis by simp
    next
      case b2: True
      with p r1 r2 b1 obtain b3 s3 where
        r3: "GetCellIsSolid d w (vadd l (0, 1, 0)) s2 = Some (b3, s3)"
        by (auto simp: ProcessIfWalkable_def split: option.splits)
      note i3 = rd[OF r3 i2]
      show ?thesis
      proof (cases b3)
        case True
        with p r1 r2 r3 b1 b2 have "s' = s3" by (simp add: ProcessIfWalkable_def)
        with i3 show ?thesis by simp
      next
        case False
        with p r1 r2 r3 b1 b2 have "ProcessCell l (Some par) cost s3 = Some s'"
          by (simp add: ProcessIfWalkable_def)
        from pc[OF this i3] show ?thesis .
      qed
    qed
  qed
qed

lemma ProcessDiagonal_invariant:
  assumes p: "ProcessDiagonal d w cur loc xz s = Some s'" and i: "I s"
    and rd: "\<And>a t b t'. GetCellIsSolid d w a t = Some (b, t') \<Longrightarrow> I t \<Longrightarrow> I t'"
    and pc: "\<And>l t t'. ProcessCell l (Some cur) 14 t = Some t' \<Longrightarrow> I t \<Longrightarrow> I t'"
  shows "I s'"
proof -
  obtain x z where xz: "xz = (x, z)" by (cases xz)
  show ?thesis
  proof (cases "OnlyCacheFilled s s' \<and> I s'")
    case True
    then show ?thesis by simp
  next
    case False
    from p obtain b1 s1 where r1: "GetCellIsSolid d w (vadd loc (x, 0, 0)) s = Some (b1, s1)"
      by (auto simp: ProcessDiagonal_def xz split: option.splits)
    note i1 = rd[OF r1 i]
    show ?thesis
    proof (cases b1)
      case True
      with p r1 have "s' = s1" by (simp add: ProcessDiagonal_def xz)
      with i1 show ?thesis by simp
    next
      case b1: False
      with p r1 obtain b2 s2 where
        r2: "GetCellIsSolid d w (vadd loc (0, 0, z)) s1 = Some (b2, s2)"
        by (auto simp: ProcessDiagonal_def xz split: option.splits)
      note i2 = rd[OF r2 i1]
      show ?thesis
      proof (cases b2)
        case True
        with p r1 r2 b1 have "s' = s2" by (simp add: ProcessDiagonal_def xz)
        with i2 show ?thesis by simp
      next
        case b2: False
        with p r1 r2 b1 obtain b3 s3 where
          r3: "GetCellIsSolid d w (vadd loc (x, - 1, 0)) s2 = Some (b3, s3)"
          by (auto simp: ProcessDiagonal_def xz split: option.splits)
        note i3 = rd[OF r3 i2]
        show ?thesis
        proof (cases b3)
          case False
          with p r1 r2 r3 b1 b2 have "s' = s3" by (simp add: ProcessDiagonal_def xz)
          with i3 show ?thesis by simp
        next
          case b3: True
          with p r1 r2 r3 b1 b2 obtain b4 s4 where
            r4: "GetCellIsSolid d w (vadd loc (0, - 1, z)) s3 = Some (b4, s4)"
            by (auto simp: ProcessDiagonal_def xz split: option.splits)
          note i4 = rd[OF r4 i3]
          show ?thesis
          proof (cases b4)
            case False
            with p r1 r2 r3 r4 b1 b2 b3 have "s' = s4" by (simp add: ProcessDiagonal_def xz)
            with i4 show ?thesis by simp
          next
            case True
            with p r1 r2 r3 r4 b1 b2 b3 have
              "ProcessIfWalkable d w (vadd loc (x, 0, z)) cur 14 s4 = Some s'"
              by (simp add: ProcessDiagonal_def xz)
            from ProcessIfWalkable_invariant[of d w _ cur 14 s4 s' I, OF this i4 rd pc]
            show ?thesis .
          qed
        qed
      qed
    qed
  qed
qed

lemma StepOnce_invariant:
  assumes st: "StepOnce d w s = Some (False, s')"
    and i: "I (s\<lparr>StepOnceCalls := Suc (StepOnceCalls s)\<rparr>)"
    and pop: "\<And>t r t'. OpenListPop w t = Some (r, t') \<Longrightarrow> I t \<Longrightarrow> I t'"
    and rd: "\<And>a t b t'. GetCellIsSolid d w a t = Some (b, t') \<Longrightarrow> I t \<Longrightarrow> I t'"
    and pc: "\<And>l par cost t t'. ProcessCell l (Some par) cost t = Some t' \<Longrightarrow> I t \<Longrightarrow> I t'"
  shows "I s'"
proof -
  let ?s0 = "s\<lparr>StepOnceCalls := Suc (StepOnceCalls s)\<rparr>"
  from st obtain r s1 where p: "OpenListPop w ?s0 = Some (r, s1)"
    by (auto simp: StepOnce_def split: option.splits)
  from st p obtain cur where r: "r = Some cur"
    by (cases r) (auto simp: StepOnce_def)
  note i1 = pop[OF p i]
  from st p r obtain c where c: "m_Map s1 cur = Some c"
    by (auto simp: StepOnce_def split: option.splits)
  from st p r c have "\<not> IsNextToDestination (m_Location c) (m_Destination s1)"
    by (auto simp: StepOnce_def split: option.splits)
  with st p r c obtain s2 where
    o: "ForEach OrthogonalOffsets
          (\<lambda>off. ProcessIfWalkable d w (vadd (m_Location c) off) cur 10) s1 = Some s2" and
    dg: "ForEach DiagonalOffsets (ProcessDiagonal d w cur (m_Location c)) s2 = Some s'"
    by (auto simp: StepOnce_def split: option.splits)
  have i2: "I s2"
  proof (rule ForEach_invariant[OF o, where I = I, OF i1])
    fix x t t'
    assume "ProcessIfWalkable d w (vadd (m_Location c) x) cur 10 t = Some t'" "I t"
    then show "I t'" by (rule ProcessIfWalkable_invariant) (erule rd pc, assumption)+
  qed
  show ?thesis
  proof (rule ForEach_invariant[OF dg, where I = I, OF i2])
    fix x t t'
    assume "ProcessDiagonal d w cur (m_Location c) x t = Some t'" "I t"
    then show "I t'" by (rule ProcessDiagonal_invariant) (erule rd pc, assumption)+
  qed
qed

lemma CacheInv_same:
  assumes inv: "CacheInv s" and log: "OracleCalls s' = OracleCalls s"
    and flags: "\<And>l. CachedSolid l s' = CachedSolid l s"
    and cells: "\<And>l c'. m_Map s' l = Some c' \<Longrightarrow>
       \<exists>c. m_Map s l = Some c \<and> m_Location c' = m_Location c"
  shows "CacheInv s'"
proof -
  have "dom (m_Map s') = dom (m_Map s)"
  proof (rule set_eqI)
    fix l
    from flags[of l] show "l \<in> dom (m_Map s') \<longleftrightarrow> l \<in> dom (m_Map s)"
      by (cases "m_Map s l"; cases "m_Map s' l") (auto simp: CachedSolid_def)
  qed
  moreover have "\<forall>l c'. m_Map s' l = Some c' \<longrightarrow> m_Location c' = l"
  proof (intro allI impI)
    fix l c' assume "m_Map s' l = Some c'"
    from cells[OF this] obtain c where "m_Map s l = Some c" "m_Location c' = m_Location c"
      by blast
    with inv show "m_Location c' = l" unfolding CacheInv_def by metis
  qed
  ultimately show ?thesis using inv log unfolding CacheInv_def by simp
qed

lemma ProcessCell_OracleCalls:
  assumes "ProcessCell q caller g s = Some s'"
  shows "OracleCalls s' = OracleCalls s"
  using assms
  by (auto simp: ProcessCell_def OpenListAdd_def CellWrite_def Let_def
           split: option.splits if_splits)

lemma OpenListPop_OracleCalls:
  assumes "OpenListPop w s = Some (r, s')"
  shows "OracleCalls s' = OracleCalls s"
  using assms
  by (auto simp: OpenListPop_def CellWrite_def Let_def
           split: option.splits if_splits list.splits)

lemma CacheInv_ProcessCell:
  assumes "ProcessCell q caller g s = Some s'" "CacheInv s"
  shows "CacheInv s'"
proof (rule CacheInv_same[OF assms(2) ProcessCell_OracleCalls[OF assms(1)]
         ProcessCell_effect(1)[OF assms(1)]])
  fix l c' assume "m_Map s' l = Some c'"
  from ProcessCell_effect(3)[OF assms(1) this]
  show "\<exists>c. m_Map s l = Some c \<and> m_Location c' = m_Location c" by blast
qed

lemma CacheInv_OpenListPop:
  assumes "OpenListPop w s = Some (r, s')" "CacheInv s"
  shows "CacheInv s'"
proof (rule CacheInv_same[OF assms(2) OpenListPop_OracleCalls[OF assms(1)]
         OpenListPop_effect(1)[OF assms(1)]])
  fix l c' assume "m_Map s' l = Some c'"
  from OpenListPop_effect(3)[OF assms(1) this]
  show "\<exists>c. m_Map s l = Some c \<and> m_Location c' = m_Location c" by blast
qed

lemma CacheInv_GetCell:
  assumes "GetCell d w a s = Some s'" "CacheInv s"
  shows "CacheInv s'"
proof -
  from GetCell_ExtendsE[OF assms(1)] obtain new where "Extends w {} s s' new" by blast
  with assms(2) show ?thesis by (rule CacheInv_Extends)
qed

lemma CacheInv_GetCellIsSolid:
  assumes "GetCellIsSolid d w a s = Some (b, s')" "CacheInv s"
  shows "CacheInv s'"
proof -
  from assms(1) have "GetCell d w a s = Some s'" by (simp add: GetCellIsSolid_Some)
  then show ?thesis using assms(2) by (rule CacheInv_GetCell)
qed

lemma CacheInv_updates [simp]:
  "CacheInv (s\<lparr>StepOnceCalls := k\<rparr>) = CacheInv s"
  "CacheInv (s\<lparr>m_PathStatus := st\<rparr>) = CacheInv s"
  "CacheInv (s\<lparr>m_StepsLeft := n\<rparr>) = CacheInv s"
  by (simp_all add: CacheInv_def)

lemma CacheInv_StepOnce:
  assumes "StepOnce d w s = Some (False, s')" "CacheInv s"
  shows "CacheInv s'"
proof (rule StepOnce_invariant[OF assms(1), where I = CacheInv])
  show "CacheInv (s\<lparr>StepOnceCalls := Suc (StepOnceCalls s)\<rparr>)" using assms(2) by simp
qed (erule CacheInv_OpenListPop CacheInv_GetCellIsSolid CacheInv_ProcessCell, assumption)+

lemma CacheInv_StepOnceTimes:
  "StepOnceTimes n d w s = Some s' \<Longrightarrow> CacheInv s \<Longrightarrow> CacheInv s'"
proof (induction n arbitrary: s)
  case 0
  then show ?case by simp
next
  case (Suc n)
  from Suc.prems(1) obtain s1 where st: "StepOnce d w s = Some (False, s1)"
    and r: "StepOnceTimes n d w s1 = Some s'"
    by (auto split: option.splits bool.splits)
  from Suc.IH[OF r CacheInv_StepOnce[OF st Suc.prems(2)]] show ?case .
qed

lemma CacheInv_Construct:
  assumes "Construct d w a b n = Some (launched, s)"
  shows "CacheInv s"
proof -
  from assms obtain b1 s1 where
    r1: "GetCellIsSolid d w a (InitialPath a b) = Some (b1, s1)"
    by (auto simp: Construct_def split: option.splits)
  from CacheInv_GetCellIsSolid[OF r1 CacheInv_InitialPath] have i1: "CacheInv s1" .
  from assms r1 obtain b2 s2 where
    r2: "(if b1 then Some (True, s1) else GetCellIsSolid d w (m_Destination s1) s1)
           = Some (b2, s2)"
    by (auto simp: Construct_def split: option.splits)
  have i2: "CacheInv s2"
  proof (cases b1)
    case True
    with r2 i1 show ?thesis by simp
  next
    case False
    with r2 have "GetCellIsSolid d w (m_Destination s1) s1 = Some (b2, s2)" by simp
    from CacheInv_GetCellIsSolid[OF this i1] show ?thesis .
  qed
  show ?thesis
  proof (cases b2)
    case True
    with assms r1 r2 have "s = s2\<lparr>m_PathStatus := PATH_NOT_FOUND\<rparr>"
      by (auto simp: Construct_def)
    with i2 show ?thesis by simp
  next
    case False
    with assms r1 r2 obtain s3 where
      g: "GetCell d w a (s2\<lparr>m_PathStatus := CALCULATING, m_StepsLeft := n\<rparr>) = Some s3" and
      pc: "ProcessCell a None 0 s3 = Some s"
      by (auto simp: Construct_def split: option.splits)
    from CacheInv_GetCell[OF g] i2 have "CacheInv s3" by simp
    from CacheInv_ProcessCell[OF pc this] show ?thesis .
  qed
qed

lemma PopulatePath_OracleCalls:
  assumes "PopulatePath cur s = Some s'"
  shows "OracleCalls s' = OracleCalls s"
  using assms
proof (induction rule: PopulatePath.raw_induct[rotated 1, consumes 1])
  case (1 PopulatePath' CurrentCell s s')
  note eq = "1.hyps"
  from eq obtain c where c: "m_Map s CurrentCell = Some c"
    by (auto split: option.splits)
  show ?case
  proof (cases "m_Parent c")
    case None
    with eq c show ?thesis by auto
  next
    case (Some p)
    with eq c have
      "PopulatePath' p (s\<lparr>m_PathPoints := m_PathPoints s @ [m_Location c]\<rparr>) = Some s'"
      by simp
    from "1.IH"[OF this] show ?thesis by simp
  qed
qed

lemma StepOnce_final_log:
  assumes "StepOnce d w s = Some (True, s')"
  shows "OracleCalls s' = OracleCalls s"
proof -
  let ?s0 = "s\<lparr>StepOnceCalls := Suc (StepOnceCalls s)\<rparr>"
  from assms obtain r s1 where pop: "OpenListPop w ?s0 = Some (r, s1)"
    by (auto simp: StepOnce_def split: option.splits)
  from OpenListPop_OracleCalls[OF pop] have l1: "OracleCalls s1 = OracleCalls s" by simp
  show ?thesis
  proof (cases r)
    case None
    with assms pop l1 show ?thesis
      by (auto simp: StepOnce_def FinishCalculationAs_def FinishCalculation_def)
  next
    case (Some cur)
    with assms pop obtain c where c: "m_Map s1 cur = Some c"
      by (auto simp: StepOnce_def split: option.splits)
    with assms pop Some obtain s2 where "PopulatePath cur s1 = Some s2"
      "s' = FinishCalculationAs PATH_FOUND s2"
      by (auto simp: StepOnce_def split: option.splits if_splits)
    with PopulatePath_OracleCalls[OF this(1)] l1 show ?thesis
      by (simp add: FinishCalculationAs_def FinishCalculation_def)
  qed
qed

lemma StepOnce_log_distinct:
  assumes "StepOnce d w s = Some (fin, s')" "CacheInv s"
  shows "distinct (OracleCalls s')"
proof (cases fin)
  case True
  with assms(1) have "OracleCalls s' = OracleCalls s" by (simp add: StepOnce_final_log)
  with assms(2) show ?thesis by (simp add: CacheInv_def)
next
  case False
  with assms have "CacheInv s'" by (simp add: CacheInv_StepOnce)
  then show ?thesis by (simp add: CacheInv_def)
qed

lemma GetCell_once_total:
  assumes "ColumnsBounded w K" "K + 2 \<le> d" "CacheInv s"
  shows "\<exists>s' new. GetCell d w l s = Some s' \<and> CacheInv s' \<and> m_Map s' l \<noteq> None \<and>
           OracleCalls s' = OracleCalls s @ new \<and>
           (m_Map s l \<noteq> None \<longrightarrow> s' = s \<and> new = []) \<and>
           (m_Map s l = None \<longrightarrow> l \<in> set new)"
proof -
  from GetCell_returns[OF assms(1,2)] obtain s' where g: "GetCell d w l s = Some s'" by blast
  from GetCell_once[OF assms(3) g] obtain new where
    "CacheInv s'" "m_Map s' l \<noteq> None" "OracleCalls s' = OracleCalls s @ new"
    "m_Map s l \<noteq> None \<longrightarrow> s' = s \<and> new = []" "m_Map s l = None \<longrightarrow> l \<in> set new"
    by (elim conjE exE)
  with g show ?thesis by (intro exI[of _ s'] exI[of _ new] conjI)
qed

lemma FencePit_water_ColumnsBounded:
  "ColumnsBounded (FencePit E_BLOCK_STATIONARY_WATER\<lparr>TieBreak := tb\<rparr>) 2"
  unfolding ColumnsBounded_def
proof (intro conjI allI)
  fix l :: Vector3i
  obtain x y z where l: "l = (x, y, z)" by (cases l)
  show "\<exists>k<2. \<not> IsFenceAt (FencePit E_BLOCK_STATIONARY_WATER\<lparr>TieBreak := tb\<rparr>)
                 (vadd l (0, int k, 0))"
  proof (cases "x = 1 \<and> z = 0 \<and> y = - 2")
    case True
    then have "\<not> IsFenceAt (FencePit E_BLOCK_STATIONARY_WATER\<lparr>TieBreak := tb\<rparr>)
                 (vadd l (0, int 1, 0))"
      by (simp add: l IsFenceAt_def FencePit_def)
    then show ?thesis by (intro exI[of _ 1]) simp
  next
    case False
    then have "\<not> IsFenceAt (FencePit E_BLOCK_STATIONARY_WATER\<lparr>TieBreak := tb\<rparr>)
                 (vadd l (0, int 0, 0))"
      by (auto simp: l IsFenceAt_def FencePit_def scenario_constants)
    then show ?thesis by (intro exI[of _ 0]) simp
  qed
  show "\<exists>k<2. \<not> IsWaterAt (FencePit E_BLOCK_STATIONARY_WATER\<lparr>TieBreak := tb\<rparr>)
                 (vadd l (0, - int k, 0))"
  proof (cases "x = 1 \<and> z = 0 \<and> y = - 1")
    case True
    then have "\<not> IsWaterAt (FencePit E_BLOCK_STATIONARY_WATER\<lparr>TieBreak := tb\<rparr>)
                 (vadd l (0, - int 1, 0))"
      by (simp add: l IsWaterAt_def FencePit_def)
    then show ?thesis by (intro exI[of _ 1]) simp
  next
    case False
    then have "\<not> IsWaterAt (FencePit E_BLOCK_STATIONARY_WATER\<lparr>TieBreak := tb\<rparr>)
                 (vadd l (0, - int 0, 0))"
      by (auto simp: l IsWaterAt_def FencePit_def scenario_constants)
    then show ?thesis by (intro exI[of _ 0]) simp
  qed
qed

section \<open>The claims\<close>

text \<open>
  Claim C1 says that one call of \<^verbatim>\<open>Step\<close> runs at most
  \<^verbatim>\<open>CALCULATIONS_PER_STEP * a_MaxSteps\<close> steps and ends a search that reaches this cap
  as \<open>PATH_NOT_FOUND\<close>. The loop computes that cap, but its counter starts at 1 and is
  compared with \<^verbatim>\<open>!=\<close>, so a cap below 1 is never met. With \<^verbatim>\<open>a_MaxSteps = 0\<close> on
  the flat floor, from \<open>(0, 0, 0)\<close> to \<open>(2, 0, 0)\<close>, whatever the tie-break,
  \<^verbatim>\<open>StepOnce\<close> runs twice, more than the cap of 0 steps, and the search ends as
  \<open>PATH_FOUND\<close>. For a budget \<open>N\<close> of at least 1 the loop does stop, after at most
  \<^verbatim>\<open>CALCULATIONS_PER_STEP * N - 1\<close> steps, and then finalises the search as
  \<open>PATH_NOT_FOUND\<close> (lemma \<open>Step_budget_status\<close>).
\<close>

theorem zero_budget_is_not_a_cap:
  "\<forall>tb. map_option (\<lambda>s. (m_StepsLeft s, StepOnceCalls s, m_PathStatus s))
          (Search 1 (FlatFloor\<lparr>TieBreak := tb\<rparr>) (0, 0, 0) (2, 0, 0) 0)
        = Some (0, 2, PATH_FOUND)"
proof
  fix tb
  show "map_option (\<lambda>s. (m_StepsLeft s, StepOnceCalls s, m_PathStatus s))
          (Search 1 (FlatFloor\<lparr>TieBreak := tb\<rparr>) (0, 0, 0) (2, 0, 0) 0)
        = Some (0, 2, PATH_FOUND)"
    by code_simp
qed


text \<open>
  Claim C3: a diagonal neighbour is passed on, with cost 14, only if both flanking cells
  are not solid and the cells below both are solid, and no found path moves diagonally
  across any other corner.
  First part: whenever the body of the diagonal loop for \<open>(x, z)\<close> does more than fill
  the cache, the four reads of lines 249 and 252 found the flanking cells \<open>(x, 0, 0)\<close>
  and \<open>(0, 0, z)\<close> not solid and the cells \<open>(x, -1, 0)\<close> and \<open>(0, -1, z)\<close> below
  them solid, and the rest is the call of \<^verbatim>\<open>ProcessIfWalkable\<close> for the diagonal
  neighbour with cost 14.
  Second part: in a search that the constructor started and that found a path after any
  number \<open>k\<close> of steps, whenever a waypoint lies diagonally from the next one (its
  parent, since \<^verbatim>\<open>m_PathPoints\<close> runs from the goal side to the start), the cache at
  the moment the path was found holds both flanking cells of that move as not solid and
  the cells below them as solid. Cells are never moved and every parent link that is a
  diagonal came from the diagonal loop; the solidity a flanking cell had when it was read
  there cannot change afterwards, because the orthogonal loop of the same step had
  already resolved the cells below and above it.
\<close>

theorem diagonal_needs_clear_corner:
  "(ProcessDiagonal d w cur loc (x, z) s = Some s' \<longrightarrow> \<not> OnlyCacheFilled s s' \<longrightarrow>
      (\<exists>s1 s2 s3 s4.
         GetCellIsSolid d w (vadd loc (x, 0, 0)) s = Some (False, s1) \<and>
         GetCellIsSolid d w (vadd loc (0, 0, z)) s1 = Some (False, s2) \<and>
         GetCellIsSolid d w (vadd loc (x, - 1, 0)) s2 = Some (True, s3) \<and>
         GetCellIsSolid d w (vadd loc (0, - 1, z)) s3 = Some (True, s4) \<and>
         ProcessIfWalkable d w (vadd loc (x, 0, z)) cur 14 s4 = Some s')) \<and>
   (Construct d w a b n = Some (True, t0) \<longrightarrow> StepOnceTimes k d w t0 = Some tk \<longrightarrow>
    StepOnce d w tk = Some (True, tf) \<longrightarrow> m_PathStatus tf = PATH_FOUND \<longrightarrow>
    Suc i < length (m_PathPoints tf) \<longrightarrow> IsDiagonal x' z' \<longrightarrow>
    m_PathPoints tf ! i = vadd (m_PathPoints tf ! Suc i) (x', 0, z') \<longrightarrow>
      CornerClear tk (m_PathPoints tf ! Suc i) x' z')"
proof (intro conjI impI)
  assume "ProcessDiagonal d w cur loc (x, z) s = Some s'" "\<not> OnlyCacheFilled s s'"
  then show "\<exists>s1 s2 s3 s4.
         GetCellIsSolid d w (vadd loc (x, 0, 0)) s = Some (False, s1) \<and>
         GetCellIsSolid d w (vadd loc (0, 0, z)) s1 = Some (False, s2) \<and>
         GetCellIsSolid d w (vadd loc (x, - 1, 0)) s2 = Some (True, s3) \<and>
         GetCellIsSolid d w (vadd loc (0, - 1, z)) s3 = Some (True, s4) \<and>
         ProcessIfWalkable d w (vadd loc (x, 0, z)) cur 14 s4 = Some s'"
    by (rule ProcessDiagonal_reads)
next
  assume "Construct d w a b n = Some (True, t0)" "StepOnceTimes k d w t0 = Some tk"
    "StepOnce d w tk = Some (True, tf)" "m_PathStatus tf = PATH_FOUND"
    "Suc i < length (m_PathPoints tf)" "IsDiagonal x' z'"
    "m_PathPoints tf ! i = vadd (m_PathPoints tf ! Suc i) (x', 0, z')"
  then show "CornerClear tk (m_PathPoints tf ! Suc i) x' z'"
    by (rule found_path_corners)
qed

theorem diagonal_needs_clear_corner_witness:
  "(\<exists>s'. ProcessDiagonal 1 FlatFloor (0, 0, 0) (0, 0, 0) (1, 1)
           (StartOf FlatFloor (0, 0, 0) (5, 0, 0) 100) = Some s' \<and>
     \<not> OnlyCacheFilled (StartOf FlatFloor (0, 0, 0) (5, 0, 0) 100) s' \<and>
     (\<exists>s1 s2 s3 s4.
        GetCellIsSolid 1 FlatFloor (vadd (0, 0, 0) (1, 0, 0))
          (StartOf FlatFloor (0, 0, 0) (5, 0, 0) 100) = Some (False, s1) \<and>
        GetCellIsSolid 1 FlatFloor (vadd (0, 0, 0) (0, 0, 1)) s1 = Some (False, s2) \<and>
        GetCellIsSolid 1 FlatFloor (vadd (0, 0, 0) (1, - 1, 0)) s2 = Some (True, s3) \<and>
        GetCellIsSolid 1 FlatFloor (vadd (0, 0, 0) (0, - 1, 1)) s3 = Some (True, s4) \<and>
        ProcessIfWalkable 1 FlatFloor (vadd (0, 0, 0) (1, 0, 1)) (0, 0, 0) 14 s4 = Some s')) \<and>
   (\<exists>t0 tk tf.
      Construct 1 FlatFloor (0, 0, 0) (2, 0, 1) 100 = Some (True, t0) \<and>
      StepOnceTimes 2 1 FlatFloor t0 = Some tk \<and>
      StepOnce 1 FlatFloor tk = Some (True, tf) \<and> m_PathStatus tf = PATH_FOUND \<and>
      m_PathPoints tf = [(1, 0, 1), (0, 0, 0)] \<and> IsDiagonal 1 1 \<and>
      CornerClear tk (0, 0, 0) 1 1)"
proof -
  let ?s = "StartOf FlatFloor (0, 0, 0) (5, 0, 0) 100"
  let ?t = "StartOf FlatFloor (0, 0, 0) (2, 0, 1) 100"
  have "map_option m_OpenList (ProcessDiagonal 1 FlatFloor (0, 0, 0) (0, 0, 0) (1, 1) ?s)
          = Some [(0, 0, 0), (1, 0, 1)]" by code_simp
  then obtain s' where s': "ProcessDiagonal 1 FlatFloor (0, 0, 0) (0, 0, 0) (1, 1) ?s = Some s'"
    and o: "m_OpenList s' = [(0, 0, 0), (1, 0, 1)]" by auto
  have "m_OpenList ?s = [(0, 0, 0)]" by code_simp
  with o have n: "\<not> OnlyCacheFilled ?s s'"
    by (auto simp: OnlyCacheFilled_def OtherFields_def)
  have "map_option fst (Construct 1 FlatFloor (0, 0, 0) (2, 0, 1) 100) = Some True"
    by code_simp
  then obtain t0 where c: "Construct 1 FlatFloor (0, 0, 0) (2, 0, 1) 100 = Some (True, t0)"
    by auto
  then have t0: "?t = t0" by (simp add: StartOf_def)
  have "StepOnceTimes 2 1 FlatFloor ?t \<noteq> None" by code_simp
  then obtain tk where r: "StepOnceTimes 2 1 FlatFloor ?t = Some tk" by auto
  have "map_option (\<lambda>(fin, tf). (fin, m_PathStatus tf, m_PathPoints tf))
          (StepOnce 1 FlatFloor (the (StepOnceTimes 2 1 FlatFloor ?t)))
        = Some (True, PATH_FOUND, [(1, 0, 1), (0, 0, 0)])" by code_simp
  with r obtain tf where f: "StepOnce 1 FlatFloor tk = Some (True, tf)" and
    st: "m_PathStatus tf = PATH_FOUND" and
    pts: "m_PathPoints tf = [(1, 0, 1), (0, 0, 0)]" by auto
  from r t0 have r': "StepOnceTimes 2 1 FlatFloor t0 = Some tk" by simp
  have dg: "IsDiagonal 1 1" by (simp add: IsDiagonal_def)
  from pts have i: "Suc 0 < length (m_PathPoints tf)"
    and mv: "m_PathPoints tf ! 0 = vadd (m_PathPoints tf ! Suc 0) (1, 0, 1)" by simp_all
  note inst = diagonal_needs_clear_corner[of 1 FlatFloor "(0, 0, 0)" "(0, 0, 0)" 1 1 "?s" s'
      "(0, 0, 0)" "(2, 0, 1)" 100 t0 2 tk tf 0 1 1]
  from inst[THEN conjunct1, rule_format, OF s' n] have p1: "\<exists>s1 s2 s3 s4.
        GetCellIsSolid 1 FlatFloor (vadd (0, 0, 0) (1, 0, 0)) ?s = Some (False, s1) \<and>
        GetCellIsSolid 1 FlatFloor (vadd (0, 0, 0) (0, 0, 1)) s1 = Some (False, s2) \<and>
        GetCellIsSolid 1 FlatFloor (vadd (0, 0, 0) (1, - 1, 0)) s2 = Some (True, s3) \<and>
        GetCellIsSolid 1 FlatFloor (vadd (0, 0, 0) (0, - 1, 1)) s3 = Some (True, s4) \<and>
        ProcessIfWalkable 1 FlatFloor (vadd (0, 0, 0) (1, 0, 1)) (0, 0, 0) 14 s4 = Some s'" .
  from inst[THEN conjunct2, rule_format, OF c r' f st i dg mv]
  have "CornerClear tk (m_PathPoints tf ! Suc 0) 1 1" .
  with pts have p2: "CornerClear tk (0, 0, 0) 1 1" by simp
  from s' n p1 have P1: "\<exists>s'. ProcessDiagonal 1 FlatFloor (0, 0, 0) (0, 0, 0) (1, 1) ?s = Some s' \<and>
     \<not> OnlyCacheFilled ?s s' \<and>
     (\<exists>s1 s2 s3 s4.
        GetCellIsSolid 1 FlatFloor (vadd (0, 0, 0) (1, 0, 0)) ?s = Some (False, s1) \<and>
        GetCellIsSolid 1 FlatFloor (vadd (0, 0, 0) (0, 0, 1)) s1 = Some (False, s2) \<and>
        GetCellIsSolid 1 FlatFloor (vadd (0, 0, 0) (1, - 1, 0)) s2 = Some (True, s3) \<and>
        GetCellIsSolid 1 FlatFloor (vadd (0, 0, 0) (0, - 1, 1)) s3 = Some (True, s4) \<and>
        ProcessIfWalkable 1 FlatFloor (vadd (0, 0, 0) (1, 0, 1)) (0, 0, 0) 14 s4 = Some s')"
    by blast
  from c r' f st pts dg p2 have P2: "\<exists>t0 tk tf.
      Construct 1 FlatFloor (0, 0, 0) (2, 0, 1) 100 = Some (True, t0) \<and>
      StepOnceTimes 2 1 FlatFloor t0 = Some tk \<and>
      StepOnce 1 FlatFloor tk = Some (True, tf) \<and> m_PathStatus tf = PATH_FOUND \<and>
      m_PathPoints tf = [(1, 0, 1), (0, 0, 0)] \<and> IsDiagonal 1 1 \<and>
      CornerClear tk (0, 0, 0) 1 1"
    by (intro exI[of _ t0] exI[of _ tk] exI[of _ tf] conjI)
  from P1 P2 show ?thesis by (rule conjI)
qed

text \<open>
  Claim C4 says that a candidate reaches \<^verbatim>\<open>ProcessCell\<close> only if it is not solid, the
  cell below it is solid and the cell above it is not solid. The three reads of line 328
  are made one after the other, each on the cache as the read before left it (lemma
  \<open>ProcessIfWalkable_reads\<close>), and a later read can change what an earlier one saw.
  In the fence pit with air on the fence, for the candidate \<open>(1, -1, 0)\<close> from the start
  \<open>(0, 0, 0)\<close>: the candidate is read as not solid; the read of the cell below it
  resolves the fence \<open>(1, -2, 0)\<close>, which forces the candidate to solid (line 185); the
  candidate nevertheless reaches \<^verbatim>\<open>ProcessCell\<close> and is put on the open list while the
  cache holds it as solid.
\<close>

theorem forced_solid_candidate_is_admitted:
  "map_option fst (GetCellIsSolid 3 (FencePit E_BLOCK_AIR) (1, - 1, 0)
       (StartOf (FencePit E_BLOCK_AIR) (0, 0, 0) (0, 0, 5) 100)) = Some False \<and>
   Option.bind (ProcessIfWalkable 3 (FencePit E_BLOCK_AIR) (1, - 1, 0) (0, 0, 0) 10
                  (StartOf (FencePit E_BLOCK_AIR) (0, 0, 0) (0, 0, 5) 100))
     (\<lambda>s. Some (CachedSolid (1, - 1, 0) s, CachedFields (1, - 1, 0) s, m_OpenList s))
   = Some (Some True, Some ((1, - 1, 0), 61, 10, 51, OPENLIST, Some (0, 0, 0)),
           [(0, 0, 0), (1, - 1, 0)])"
  by code_simp

text \<open>
  Claim C7: \<^verbatim>\<open>GetCell\<close> calls the oracle exactly once per location. \<open>OracleCalls\<close>
  logs every call of \<^verbatim>\<open>IsSolid\<close>, the recursive ones included, and \<open>CacheInv\<close> says
  that the log has no location twice, that the logged locations are exactly the cached
  ones, and that every cell is stored under its own location.
  First part, in a world whose fence and water columns are bounded and with a recursion
  budget that covers them: from any state that satisfies the invariant a call of
  \<^verbatim>\<open>GetCell\<close> returns; for a cached location it changes nothing at all (no oracle
  call, the cached cell is the one returned); for a location that is not cached it
  leaves it cached and calls the oracle for it; in both cases the calls it makes are
  appended to the log and the invariant holds again.
  Second part: the invariant holds in every state of a search, from the constructor
  through any number of steps, and the log is still free of duplicates after the step
  that follows, whether that step ends the search or not. So no location is asked twice
  in a whole search.
\<close>

theorem GetCell_queries_oracle_once:
  assumes "ColumnsBounded w K" and "K + 2 \<le> d"
  shows "(CacheInv s \<longrightarrow>
            (\<exists>s' new. GetCell d w l s = Some s' \<and> CacheInv s' \<and> m_Map s' l \<noteq> None \<and>
               OracleCalls s' = OracleCalls s @ new \<and>
               (m_Map s l \<noteq> None \<longrightarrow> s' = s \<and> new = []) \<and>
               (m_Map s l = None \<longrightarrow> l \<in> set new))) \<and>
         (Construct d w a b n = Some (launched, s0) \<longrightarrow> StepOnceTimes k d w s0 = Some sk \<longrightarrow>
            CacheInv sk \<and>
            (\<forall>fin sf. StepOnce d w sk = Some (fin, sf) \<longrightarrow> distinct (OracleCalls sf)))"
proof (intro conjI impI allI)
  assume "CacheInv s"
  with assms show "\<exists>s' new. GetCell d w l s = Some s' \<and> CacheInv s' \<and> m_Map s' l \<noteq> None \<and>
               OracleCalls s' = OracleCalls s @ new \<and>
               (m_Map s l \<noteq> None \<longrightarrow> s' = s \<and> new = []) \<and>
               (m_Map s l = None \<longrightarrow> l \<in> set new)"
    by (rule GetCell_once_total)
next
  assume c: "Construct d w a b n = Some (launched, s0)" and r: "StepOnceTimes k d w s0 = Some sk"
  from CacheInv_StepOnceTimes[OF r CacheInv_Construct[OF c]] show i: "CacheInv sk" .
  fix fin sf assume "StepOnce d w sk = Some (fin, sf)"
  then show "distinct (OracleCalls sf)" using i by (rule StepOnce_log_distinct)
qed

theorem GetCell_queries_oracle_once_witness:
  "ColumnsBounded (FencePit E_BLOCK_STATIONARY_WATER) 2 \<and> (2::nat) + 2 \<le> 4 \<and>
   CacheInv (InitialPath (0, 0, 0) (0, 0, 5)) \<and>
   (\<exists>s'. GetCell 4 (FencePit E_BLOCK_STATIONARY_WATER) (1, - 1, 0)
            (InitialPath (0, 0, 0) (0, 0, 5)) = Some s' \<and>
      CacheInv s' \<and> OracleCalls s' = [(1, - 1, 0), (1, - 2, 0)] \<and>
      GetCell 4 (FencePit E_BLOCK_STATIONARY_WATER) (1, - 1, 0) s' = Some s' \<and>
      GetCell 4 (FencePit E_BLOCK_STATIONARY_WATER) (1, - 2, 0) s' = Some s') \<and>
   (\<exists>s0 s1. Construct 4 (FencePit E_BLOCK_STATIONARY_WATER) (0, 0, 0) (0, 0, 5) 100
               = Some (True, s0) \<and>
      StepOnceTimes 1 4 (FencePit E_BLOCK_STATIONARY_WATER) s0 = Some s1 \<and>
      CacheInv s1 \<and> length (OracleCalls s1) = 21)"
proof -
  let ?w = "FencePit E_BLOCK_STATIONARY_WATER"
  let ?i = "InitialPath (0, 0, 0) (0, 0, 5)"
  have "?w\<lparr>TieBreak := FirstPushed\<rparr> = ?w" by (simp add: FencePit_def)
  with FencePit_water_ColumnsBounded[of FirstPushed] have cb: "ColumnsBounded ?w 2" by simp
  have k: "(2::nat) + 2 \<le> 4" by simp
  have i: "CacheInv ?i" by (rule CacheInv_InitialPath)
  note t = GetCell_queries_oracle_once[OF cb k]
  from t[of ?i "(1, - 1, 0)", THEN conjunct1, rule_format, OF i] obtain s' new where
    g: "GetCell 4 ?w (1, - 1, 0) ?i = Some s'" and i': "CacheInv s'"
    and c1: "m_Map s' (1, - 1, 0) \<noteq> None" by (elim exE conjE)
  have "map_option OracleCalls (GetCell 4 ?w (1, - 1, 0) ?i) = Some [(1, - 1, 0), (1, - 2, 0)]"
    by code_simp
  with g have log: "OracleCalls s' = [(1, - 1, 0), (1, - 2, 0)]" by simp
  from i' log have c2: "m_Map s' (1, - 2, 0) \<noteq> None" unfolding CacheInv_def by auto
  from t[of s' "(1, - 1, 0)", THEN conjunct1, rule_format, OF i'] c1
  have h1: "GetCell 4 ?w (1, - 1, 0) s' = Some s'" by (elim exE conjE) simp
  from t[of s' "(1, - 2, 0)", THEN conjunct1, rule_format, OF i'] c2
  have h2: "GetCell 4 ?w (1, - 2, 0) s' = Some s'" by (elim exE conjE) simp
  have "map_option fst (Construct 4 ?w (0, 0, 0) (0, 0, 5) 100) = Some True" by code_simp
  then obtain s0 where c: "Construct 4 ?w (0, 0, 0) (0, 0, 5) 100 = Some (True, s0)" by auto
  have "map_option (length \<circ> OracleCalls) (RunSteps 4 ?w (0, 0, 0) (0, 0, 5) 100 1) = Some 21"
    by code_simp
  with c obtain s1 where r: "StepOnceTimes 1 4 ?w s0 = Some s1"
    and n: "length (OracleCalls s1) = 21" by (auto simp: RunSteps_def)
  from t[THEN conjunct2, rule_format, OF c r] have i1: "CacheInv s1" by (rule conjunct1)
  have P1: "\<exists>s'. GetCell 4 ?w (1, - 1, 0) ?i = Some s' \<and>
      CacheInv s' \<and> OracleCalls s' = [(1, - 1, 0), (1, - 2, 0)] \<and>
      GetCell 4 ?w (1, - 1, 0) s' = Some s' \<and> GetCell 4 ?w (1, - 2, 0) s' = Some s'"
    using g i' log h1 h2 by (intro exI[of _ s'] conjI)
  have P2: "\<exists>s0 s1. Construct 4 ?w (0, 0, 0) (0, 0, 5) 100 = Some (True, s0) \<and>
      StepOnceTimes 1 4 ?w s0 = Some s1 \<and> CacheInv s1 \<and> length (OracleCalls s1) = 21"
    using c r i1 n by (intro exI[of _ s0] exI[of _ s1] conjI)
  from cb k i P1 P2 show ?thesis by (intro conjI)
qed

text \<open>
  Claim C9: with \<^verbatim>\<open>m_StepsLeft = 0\<close> the loop of \<^verbatim>\<open>Step\<close> has no budget stop. Its
  bound is 0 and its counter starts at 1, so \<^verbatim>\<open>Step\<close> returns exactly when some call
  of \<^verbatim>\<open>StepOnce\<close> returns true, after any number \<open>n\<close> of calls that returned false
  (any number the counter can hold), and then with the state that call left: the path
  was found, or the open list was empty. \<^verbatim>\<open>StepOnce\<close> runs \<open>n + 1\<close> times, at least
  once.
\<close>

theorem Step_zero_budget_has_no_cap:
  assumes "m_StepsLeft s = 0"
  shows "Step d w s = Some s' \<longleftrightarrow>
     (\<exists>n sn. int n < INT_MAX \<and> StepOnceTimes n d w s = Some sn \<and>
        StepOnce d w sn = Some (True, s') \<and>
        (m_PathStatus s' = PATH_FOUND \<or>
         m_PathStatus s' = PATH_NOT_FOUND \<and> m_OpenList sn = []))"
proof
  assume "Step d w s = Some s'"
  then have "StepLoop d w 1 s = Some s'" by (simp add: Step_def)
  from StepLoop_zero_returns[OF assms _ this] obtain n sn where
    n: "1 + int n \<le> INT_MAX" and r: "StepOnceTimes n d w s = Some sn"
    and t: "StepOnce d w sn = Some (True, s')"
    by (auto simp: INT_MAX_def)
  from n have "int n < INT_MAX" by simp
  with r t StepOnce_True[OF t] show
    "\<exists>n sn. int n < INT_MAX \<and> StepOnceTimes n d w s = Some sn \<and>
        StepOnce d w sn = Some (True, s') \<and>
        (m_PathStatus s' = PATH_FOUND \<or>
         m_PathStatus s' = PATH_NOT_FOUND \<and> m_OpenList sn = [])"
    by blast
next
  assume "\<exists>n sn. int n < INT_MAX \<and> StepOnceTimes n d w s = Some sn \<and>
        StepOnce d w sn = Some (True, s') \<and>
        (m_PathStatus s' = PATH_FOUND \<or>
         m_PathStatus s' = PATH_NOT_FOUND \<and> m_OpenList sn = [])"
  then obtain n sn where n: "int n < INT_MAX" and r: "StepOnceTimes n d w s = Some sn"
    and t: "StepOnce d w sn = Some (True, s')" by blast
  from n have n': "1 + int n \<le> INT_MAX" by simp
  from StepOnceTimes_Params[OF r] assms have z: "m_StepsLeft sn = 0"
    by (simp add: Params_def)
  have "StepLoop d w 1 s = StepLoop d w (1 + int n) sn"
    using assms _ r n' by (rule StepLoop_zero_run) simp
  also have "\<dots> = Some s'"
    by (subst StepLoop_zero[OF z]) (simp_all add: t)
  finally show "Step d w s = Some s'" by (simp add: Step_def)
qed

theorem Step_zero_budget_has_no_cap_witness:
  "m_StepsLeft (StartOf FlatFloor (0, 0, 0) (2, 0, 0) 0) = 0 \<and>
   (\<exists>s'. Step 1 FlatFloor (StartOf FlatFloor (0, 0, 0) (2, 0, 0) 0) = Some s' \<and>
      (\<exists>n sn. int n < INT_MAX \<and>
         StepOnceTimes n 1 FlatFloor (StartOf FlatFloor (0, 0, 0) (2, 0, 0) 0) = Some sn \<and>
         StepOnce 1 FlatFloor sn = Some (True, s')))"
proof -
  let ?s = "StartOf FlatFloor (0, 0, 0) (2, 0, 0) 0"
  have z: "m_StepsLeft ?s = 0" by code_simp
  have "Step 1 FlatFloor ?s \<noteq> None" by code_simp
  then obtain s' where s': "Step 1 FlatFloor ?s = Some s'" by auto
  from Step_zero_budget_has_no_cap[OF z, of 1 FlatFloor s'] s' z show ?thesis by blast
qed

text \<open>
  Claim C10 as stated fails in two ways. A start that is not solid and has no floor does
  not make the search enter \<open>CALCULATING\<close> when the goal is solid: on the flat floor
  the start \<open>(0, 5, 0)\<close> hangs in the air and the goal \<open>(3, -1, 0)\<close> is stone. And a
  start that is put on the open list is not always expanded: from the same start to the
  goal \<open>(1, 5, 0)\<close> next to it, the first step pops the start, finds it next to the goal
  and ends the search as \<open>PATH_FOUND\<close> with the start as the only waypoint; no
  neighbour is looked at (the oracle log is the one the constructor left).
\<close>

theorem start_is_seeded_unchecked_counterexample:
  "\<not> WorldSolid FlatFloor (0, 5, 0) \<and> \<not> WorldSolid FlatFloor (0, 4, 0) \<and>
   map_option (\<lambda>(launched, s). (launched, m_PathStatus s, m_OpenList s))
     (Construct 1 FlatFloor (0, 5, 0) (3, - 1, 0) 100) = Some (False, PATH_NOT_FOUND, []) \<and>
   map_option (\<lambda>(launched, s). (launched, m_PathStatus s, m_OpenList s, OracleCalls s))
     (Construct 1 FlatFloor (0, 5, 0) (1, 5, 0) 100)
     = Some (True, CALCULATING, [(0, 5, 0)], [(0, 5, 0), (1, 5, 0)]) \<and>
   map_option (\<lambda>(fin, s). (fin, m_PathStatus s, m_PathPoints s, OracleCalls s))
     (StepOnce 1 FlatFloor (StartOf FlatFloor (0, 5, 0) (1, 5, 0) 100))
     = Some (True, PATH_FOUND, [(0, 5, 0)], [(0, 5, 0), (1, 5, 0)])"
  by code_simp

text \<open>
  Claim C10, amended: the start cell is put on the open list without the floor and
  headroom checks. Whenever the start and the goal both resolve as not solid in the
  constructor and their distance is small enough for the heuristic \<open>h\<close> to be computed
  in \<^verbatim>\<open>int\<close>, whatever the cells below and above the start are, the constructor ends in
  \<open>CALCULATING\<close> with the start as the only open cell (\<^verbatim>\<open>g = 0\<close>,
  \<^verbatim>\<open>f = h\<close>, null parent). The first step pops the start cell and closes it. If the
  start is one of the five cells next to the goal, that step ends the search as
  \<open>PATH_FOUND\<close> with the start as its only waypoint; otherwise the step is the expansion
  of the start cell: the orthogonal and the diagonal loop run from it.
\<close>

theorem start_is_seeded_unchecked:
  assumes "EndpointSolid d w a b = Some False" and "Length10 (vsub a b) = Some h"
  shows "\<exists>s s1. Construct d w a b n = Some (True, s) \<and> m_PathStatus s = CALCULATING \<and>
           m_StepsLeft s = n \<and> m_OpenList s = [a] \<and> StepOnceCalls s = 0 \<and>
           m_PathPoints s = [] \<and>
           CachedFields a s = Some (a, h, 0, h, OPENLIST, None) \<and>
           OpenListPop w (s\<lparr>StepOnceCalls := Suc (StepOnceCalls s)\<rparr>) = Some (Some a, s1) \<and>
           m_OpenList s1 = [] \<and>
           CachedFields a s1 = Some (a, h, 0, h, CLOSEDLIST, None) \<and>
           StepOnce d w s =
             (if IsNextToDestination a b
              then Some (True, FinishCalculationAs PATH_FOUND (s1\<lparr>m_PathPoints := [a]\<rparr>))
              else (case ForEach OrthogonalOffsets
                           (\<lambda>off. ProcessIfWalkable d w (vadd a off) a 10) s1 of
                      None \<Rightarrow> None
                    | Some s2 \<Rightarrow>
                        (case ForEach DiagonalOffsets (ProcessDiagonal d w a a) s2 of
                           None \<Rightarrow> None
                         | Some s3 \<Rightarrow> Some (False, s3))))"
  using assms by (rule Construct_clear)

theorem start_is_seeded_unchecked_witness:
  "EndpointSolid 1 FlatFloor (0, 5, 0) (3, 5, 0) = Some False \<and>
   Length10 (vsub (0, 5, 0) (3, 5, 0)) = Some 30 \<and>
   \<not> WorldSolid FlatFloor (0, 4, 0) \<and> \<not> IsNextToDestination (0, 5, 0) (3, 5, 0) \<and>
   (\<exists>s s1 s'. Construct 1 FlatFloor (0, 5, 0) (3, 5, 0) 100 = Some (True, s) \<and>
      m_PathStatus s = CALCULATING \<and> m_OpenList s = [(0, 5, 0)] \<and>
      CachedFields (0, 5, 0) s = Some ((0, 5, 0), 30, 0, 30, OPENLIST, None) \<and>
      OpenListPop FlatFloor (s\<lparr>StepOnceCalls := Suc (StepOnceCalls s)\<rparr>)
        = Some (Some (0, 5, 0), s1) \<and>
      StepOnce 1 FlatFloor s = Some (False, s') \<and>
      ForEach OrthogonalOffsets
        (\<lambda>off. ProcessIfWalkable 1 FlatFloor (vadd (0, 5, 0) off) (0, 5, 0) 10) s1 \<noteq> None)"
proof -
  have e: "EndpointSolid 1 FlatFloor (0, 5, 0) (3, 5, 0) = Some False" by code_simp
  have h: "Length10 (vsub (0, 5, 0) (3, 5, 0)) = Some 30" by code_simp
  have f: "\<not> WorldSolid FlatFloor (0, 4, 0)" by code_simp
  have nx: "\<not> IsNextToDestination (0, 5, 0) (3, 5, 0)" by code_simp
  from start_is_seeded_unchecked[OF e h, of 100] obtain s s1 where
    c: "Construct 1 FlatFloor (0, 5, 0) (3, 5, 0) 100 = Some (True, s)" and
    st: "m_PathStatus s = CALCULATING" and ol: "m_OpenList s = [(0, 5, 0)]" and
    cf: "CachedFields (0, 5, 0) s = Some ((0, 5, 0), 30, 0, 30, OPENLIST, None)" and
    pop: "OpenListPop FlatFloor (s\<lparr>StepOnceCalls := Suc (StepOnceCalls s)\<rparr>)
        = Some (Some (0, 5, 0), s1)" and
    step: "StepOnce 1 FlatFloor s =
             (if IsNextToDestination (0, 5, 0) (3, 5, 0)
              then Some (True, FinishCalculationAs PATH_FOUND (s1\<lparr>m_PathPoints := [(0, 5, 0)]\<rparr>))
              else (case ForEach OrthogonalOffsets
                           (\<lambda>off. ProcessIfWalkable 1 FlatFloor (vadd (0, 5, 0) off)
                                    (0, 5, 0) 10) s1 of
                      None \<Rightarrow> None
                    | Some s2 \<Rightarrow>
                        (case ForEach DiagonalOffsets
                                (ProcessDiagonal 1 FlatFloor (0, 5, 0) (0, 5, 0)) s2 of
                           None \<Rightarrow> None
                         | Some s3 \<Rightarrow> Some (False, s3))))"
    by (elim exE conjE)
  from c have so: "StartOf FlatFloor (0, 5, 0) (3, 5, 0) 100 = s" by (simp add: StartOf_def)
  have "map_option fst (StepOnce 1 FlatFloor (StartOf FlatFloor (0, 5, 0) (3, 5, 0) 100))
          = Some False" by code_simp
  with so obtain s' where s': "StepOnce 1 FlatFloor s = Some (False, s')" by auto
  from s' step nx have fe: "ForEach OrthogonalOffsets
        (\<lambda>off. ProcessIfWalkable 1 FlatFloor (vadd (0, 5, 0) off) (0, 5, 0) 10) s1 \<noteq> None"
    by (auto split: option.splits)
  have "\<exists>s s1 s'. Construct 1 FlatFloor (0, 5, 0) (3, 5, 0) 100 = Some (True, s) \<and>
      m_PathStatus s = CALCULATING \<and> m_OpenList s = [(0, 5, 0)] \<and>
      CachedFields (0, 5, 0) s = Some ((0, 5, 0), 30, 0, 30, OPENLIST, None) \<and>
      OpenListPop FlatFloor (s\<lparr>StepOnceCalls := Suc (StepOnceCalls s)\<rparr>)
        = Some (Some (0, 5, 0), s1) \<and>
      StepOnce 1 FlatFloor s = Some (False, s') \<and>
      ForEach OrthogonalOffsets
        (\<lambda>off. ProcessIfWalkable 1 FlatFloor (vadd (0, 5, 0) off) (0, 5, 0) 10) s1 \<noteq> None"
    using c st ol cf pop s' fe by (intro exI[of _ s] exI[of _ s1] exI[of _ s'] conjI)
  with e h f nx show ?thesis by (intro conjI)
qed

section \<open>Scenarios\<close>

text \<open>
  The scenarios are evaluated for an arbitrary tie-break \<open>tb\<close>: in none of them are two
  cells of least \<^verbatim>\<open>m_F\<close> queued when a cell is popped, so the library's choice among
  equal cells never comes into play.
\<close>

text \<open>
  Claim C5 says that relaxing an open cell with a smaller cost re-prioritises its open
  list entry to the new \<^verbatim>\<open>f\<close>. On the walled floor, from \<open>(0, 0, 0)\<close> to
  \<open>(3, 0, 2)\<close>, the cell \<open>(0, 0, 2)\<close> is first reached over \<open>(1, 0, 1)\<close> with
  \<^verbatim>\<open>g = 28\<close>, \<^verbatim>\<open>h = 30\<close>, \<^verbatim>\<open>f = 58\<close>; the fourth step relaxes it from
  \<open>(0, 0, 1)\<close>. Lines 383-385 then set \<^verbatim>\<open>g = 20\<close> and the parent, but they assign
  \<^verbatim>\<open>m_H = m_F + m_G\<close> where \<^verbatim>\<open>m_F = m_H + m_G\<close> is meant: \<^verbatim>\<open>m_F\<close>, the key of the
  open list, stays 58 (the new \<^verbatim>\<open>g + h\<close> is 50), and \<^verbatim>\<open>m_H\<close> becomes 78. The values
  are \<open>(location, f, g, h, status, parent)\<close>. Lemma \<open>ProcessCell_relaxes\<close> gives
  the effect of the third case of \<^verbatim>\<open>ProcessCell\<close> on any open cell.
\<close>

theorem relaxation_leaves_f_stale:
  "\<forall>tb.
     Option.bind (RunSteps 1 (WalledFloor\<lparr>TieBreak := tb\<rparr>) (0, 0, 0) (3, 0, 2) 100 3)
       (CachedFields (0, 0, 2))
       = Some ((0, 0, 2), 58, 28, 30, OPENLIST, Some (1, 0, 1)) \<and>
     Option.bind (RunSteps 1 (WalledFloor\<lparr>TieBreak := tb\<rparr>) (0, 0, 0) (3, 0, 2) 100 4)
       (CachedFields (0, 0, 2))
       = Some ((0, 0, 2), 58, 20, 78, OPENLIST, Some (0, 0, 1))"
proof
  fix tb
  show "Option.bind (RunSteps 1 (WalledFloor\<lparr>TieBreak := tb\<rparr>) (0, 0, 0) (3, 0, 2) 100 3)
       (CachedFields (0, 0, 2))
       = Some ((0, 0, 2), 58, 28, 30, OPENLIST, Some (1, 0, 1)) \<and>
     Option.bind (RunSteps 1 (WalledFloor\<lparr>TieBreak := tb\<rparr>) (0, 0, 0) (3, 0, 2) 100 4)
       (CachedFields (0, 0, 2))
       = Some ((0, 0, 2), 58, 20, 78, OPENLIST, Some (0, 0, 1))"
    by code_simp
qed

text \<open>
  Claim C6 says that the cell above a resolved fence is solid for the search before the
  search reads it. In the fence pit the first step from \<open>(0, 0, 0)\<close> looks at the
  cell \<open>(1, -1, 0)\<close> on top of the fence \<open>(1, -2, 0)\<close>.
  With stationary water on the fence, \<^verbatim>\<open>GetCell\<close> of the water cell resolves the fence
  from inside \<^verbatim>\<open>IsSolid\<close>; the fence forces the water cell solid, and then line 403
  stores the return value of \<^verbatim>\<open>IsSolid\<close> over it: the fence is resolved, the cell above
  it is cached as not solid, and the step puts it on the open list.
  With air on the fence, line 328 reads the cell as not solid, resolves the fence only
  then (as the cell below), and puts the cell on the open list although the cache now
  holds it as solid.
\<close>

theorem fence_override_lost:
  "\<forall>tb.
     Option.bind
       (RunSteps 3 (FencePit E_BLOCK_STATIONARY_WATER\<lparr>TieBreak := tb\<rparr>) (0, 0, 0) (0, 0, 5) 100 1)
       (\<lambda>s. Some (CachedSolid (1, - 2, 0) s, CachedSolid (1, - 1, 0) s,
                   map_option m_Status (m_Map s (1, - 1, 0))))
       = Some (Some True, Some False, Some OPENLIST) \<and>
     Option.bind
       (RunSteps 3 (FencePit E_BLOCK_AIR\<lparr>TieBreak := tb\<rparr>) (0, 0, 0) (0, 0, 5) 100 1)
       (\<lambda>s. Some (CachedSolid (1, - 2, 0) s, CachedSolid (1, - 1, 0) s,
                   map_option m_Status (m_Map s (1, - 1, 0))))
       = Some (Some True, Some True, Some OPENLIST)"
proof
  fix tb
  show "Option.bind
       (RunSteps 3 (FencePit E_BLOCK_STATIONARY_WATER\<lparr>TieBreak := tb\<rparr>) (0, 0, 0) (0, 0, 5) 100 1)
       (\<lambda>s. Some (CachedSolid (1, - 2, 0) s, CachedSolid (1, - 1, 0) s,
                   map_option m_Status (m_Map s (1, - 1, 0))))
       = Some (Some True, Some False, Some OPENLIST) \<and>
     Option.bind
       (RunSteps 3 (FencePit E_BLOCK_AIR\<lparr>TieBreak := tb\<rparr>) (0, 0, 0) (0, 0, 5) 100 1)
       (\<lambda>s. Some (CachedSolid (1, - 2, 0) s, CachedSolid (1, - 1, 0) s,
                   map_option m_Status (m_Map s (1, - 1, 0))))
       = Some (Some True, Some True, Some OPENLIST)"
    by code_simp
qed

text \<open>
  The search of claim C8, evaluated: the status, the waypoints in the order
  \<^verbatim>\<open>m_PathPoints\<close> holds them, and the number of steps.
\<close>

lemma flat_floor_search:
  "map_option (\<lambda>s. (m_PathStatus s, m_PathPoints s, StepOnceCalls s))
     (Search 1 (FlatFloor\<lparr>TieBreak := tb\<rparr>) (0, 0, 0) (5, 0, 0) 100)
     = Some (PATH_FOUND, [(4, 0, 0), (3, 0, 0), (2, 0, 0), (1, 0, 0), (0, 0, 0)], 5)"
  by code_simp

lemma flat_floor_cost:
  "Option.bind (RunSteps 1 (FlatFloor\<lparr>TieBreak := tb\<rparr>) (0, 0, 0) (5, 0, 0) 100 4)
     (CachedFields (4, 0, 0))
     = Some ((4, 0, 0), 50, 40, 10, OPENLIST, Some (3, 0, 0))"
  by code_simp

text \<open>
  Claim C8 as stated fails: the path has 5 waypoints, not 6.
\<close>

theorem flat_floor_path_counterexample:
  "\<forall>tb. map_option (length \<circ> m_PathPoints)
          (Search 1 (FlatFloor\<lparr>TieBreak := tb\<rparr>) (0, 0, 0) (5, 0, 0) 100) \<noteq> Some 6"
proof
  fix tb
  show "map_option (length \<circ> m_PathPoints)
          (Search 1 (FlatFloor\<lparr>TieBreak := tb\<rparr>) (0, 0, 0) (5, 0, 0) 100) \<noteq> Some 6"
    using flat_floor_search[of tb]
    by (cases "Search 1 (FlatFloor\<lparr>TieBreak := tb\<rparr>) (0, 0, 0) (5, 0, 0) 100") auto
qed

text \<open>
  Claim C8, amended: on the flat floor the search from \<open>(0, 0, 0)\<close> to \<open>(5, 0, 0)\<close>
  with a budget of 100 ends as \<open>PATH_FOUND\<close> after 5 steps. \<^verbatim>\<open>m_PathPoints\<close> holds 5
  waypoints, from the cell \<open>(4, 0, 0)\<close> next to the goal back to the start, so \<open>x\<close>
  falls by one from each waypoint to the next and the goal itself is not among them.
  The cell \<open>(4, 0, 0)\<close> is reached with \<^verbatim>\<open>g = 40\<close> (4 moves of cost 10).
\<close>

theorem flat_floor_path:
  "\<forall>tb.
     map_option m_PathStatus (Search 1 (FlatFloor\<lparr>TieBreak := tb\<rparr>) (0, 0, 0) (5, 0, 0) 100)
       = Some PATH_FOUND \<and>
     map_option m_PathPoints (Search 1 (FlatFloor\<lparr>TieBreak := tb\<rparr>) (0, 0, 0) (5, 0, 0) 100)
       = Some [(4, 0, 0), (3, 0, 0), (2, 0, 0), (1, 0, 0), (0, 0, 0)] \<and>
     map_option StepOnceCalls (Search 1 (FlatFloor\<lparr>TieBreak := tb\<rparr>) (0, 0, 0) (5, 0, 0) 100)
       = Some 5 \<and>
     Option.bind (RunSteps 1 (FlatFloor\<lparr>TieBreak := tb\<rparr>) (0, 0, 0) (5, 0, 0) 100 4)
       (CachedFields (4, 0, 0))
       = Some ((4, 0, 0), 50, 40, 10, OPENLIST, Some (3, 0, 0))"
proof
  fix tb
  show "map_option m_PathStatus (Search 1 (FlatFloor\<lparr>TieBreak := tb\<rparr>) (0, 0, 0) (5, 0, 0) 100)
       = Some PATH_FOUND \<and>
     map_option m_PathPoints (Search 1 (FlatFloor\<lparr>TieBreak := tb\<rparr>) (0, 0, 0) (5, 0, 0) 100)
       = Some [(4, 0, 0), (3, 0, 0), (2, 0, 0), (1, 0, 0), (0, 0, 0)] \<and>
     map_option StepOnceCalls (Search 1 (FlatFloor\<lparr>TieBreak := tb\<rparr>) (0, 0, 0) (5, 0, 0) 100)
       = Some 5 \<and>
     Option.bind (RunSteps 1 (FlatFloor\<lparr>TieBreak := tb\<rparr>) (0, 0, 0) (5, 0, 0) 100 4)
       (CachedFields (4, 0, 0))
       = Some ((4, 0, 0), 50, 40, 10, OPENLIST, Some (3, 0, 0))"
    using flat_floor_search[of tb] flat_floor_cost[of tb]
    by (cases "Search 1 (FlatFloor\<lparr>TieBreak := tb\<rparr>) (0, 0, 0) (5, 0, 0) 100") auto
qed

end
